theory Spec2Isabelle
  imports Main
begin

section \<open>The message scanner of uvm\_message\_search.py\<close>

text \<open>
  This theory embeds \<^verbatim>\<open>SearchFile.search\<close> of \<^verbatim>\<open>uvm_message_search.py\<close>.
  A Python \<^verbatim>\<open>str\<close> is a \<^typ>\<open>string\<close> whose characters are the code points
  U+0000 to U+00FF. The file is given as the list that \<^verbatim>\<open>fh.readlines()\<close> returns.
  The regular expression engine behind \<^verbatim>\<open>re.search\<close> is a parameter \<open>rx\<close>:
  \<open>rx pattern line\<close> is \<open>None\<close> when compiling the pattern raises \<^verbatim>\<open>re.error\<close>
  and \<open>Some b\<close> otherwise, \<open>b\<close> telling whether a match was found.
\<close>

subsection \<open>Module constants\<close>

definition SEPERATION :: string where
  "SEPERATION = ''...''"

definition END_OF_TEST :: string where
  "END_OF_TEST = ''# --- UVM Report Summary ---''"

definition UVM_MESSAGE :: string where
  "UVM_MESSAGE = ''# UVM_''"

definition UVM_WARNING :: string where
  "UVM_WARNING = ''# UVM_WARNING''"

definition UVM_ERROR :: string where
  "UVM_ERROR = ''# UVM_ERROR''"

definition UVM_FATAL :: string where
  "UVM_FATAL = ''# UVM_FATAL''"

subsection \<open>String operations of Python\<close>

definition newline :: string where
  "newline = [CHR 0x0A]"

text \<open>\<^verbatim>\<open>s.startswith(p)\<close>\<close>

definition startswith :: "string \<Rightarrow> string \<Rightarrow> bool" where
  "startswith p s = (take (length p) s = p)"

text \<open>\<^verbatim>\<open>p in s\<close> for strings: \<open>p\<close> occurs in \<open>s\<close> as a substring.\<close>

fun contains :: "string \<Rightarrow> string \<Rightarrow> bool" where
  "contains p [] = (p = [])"
| "contains p (c # cs) = (startswith p (c # cs) \<or> contains p cs)"

text \<open>\<^verbatim>\<open>str.isspace\<close> on one character below U+0100.\<close>

definition isspace :: "char \<Rightarrow> bool" where
  "isspace c = (let n = (of_char c :: nat) in
     (9 \<le> n \<and> n \<le> 13) \<or> (28 \<le> n \<and> n \<le> 32) \<or> n = 133 \<or> n = 160)"

text \<open>\<^verbatim>\<open>line.rstrip()\<close>\<close>

definition rstrip :: "string \<Rightarrow> string" where
  "rstrip s = rev (dropWhile isspace (rev s))"

text \<open>\<^verbatim>\<open>str.lower\<close> on one character below U+0100, and on a string.\<close>

definition lower_char :: "char \<Rightarrow> char" where
  "lower_char c = (let n = (of_char c :: nat) in
     if (65 \<le> n \<and> n \<le> 90) \<or> (192 \<le> n \<and> n \<le> 222 \<and> n \<noteq> 215)
     then char_of (n + 32) else c)"

definition lower :: "string \<Rightarrow> string" where
  "lower s = map lower_char s"

text \<open>
  \<^verbatim>\<open>re.sub(r"\x1b(?:\[.*?m)", "", line)\<close>: every leftmost occurrence of ESC, an opening
  bracket, the shortest run of characters other than a line feed, and the letter m is
  removed.
\<close>

function strip_ansi :: "string \<Rightarrow> string" where
  "strip_ansi [] = []"
| "strip_ansi (c # cs) =
     (if c = CHR 0x1B \<and> cs \<noteq> [] \<and> hd cs = CHR ''[''
         \<and> dropWhile (\<lambda>x. x \<noteq> CHR ''m'') (tl cs) \<noteq> []
         \<and> CHR 0x0A \<notin> set (takeWhile (\<lambda>x. x \<noteq> CHR ''m'') (tl cs))
      then strip_ansi (tl (dropWhile (\<lambda>x. x \<noteq> CHR ''m'') (tl cs)))
      else c # strip_ansi cs)"
  by pat_completeness auto
termination
proof (relation "measure length")
  show "wf (measure length)" by simp
next
  fix c :: char and cs :: string
  have "length (tl (dropWhile (\<lambda>x. x \<noteq> CHR ''m'') (tl cs))) \<le> length cs"
    by (metis diff_le_self le_trans length_dropWhile_le length_tl)
  then show "(tl (dropWhile (\<lambda>x. x \<noteq> CHR ''m'') (tl cs)), c # cs) \<in> measure length"
    by simp
next
  fix c :: char and cs :: string
  show "(cs, c # cs) \<in> measure length" by simp
qed

text \<open>\<^verbatim>\<open>str(n)\<close> for a natural number: its decimal digits.\<close>

definition digit_char :: "nat \<Rightarrow> char" where
  "digit_char d = char_of (48 + d)"

fun str_nat :: "nat \<Rightarrow> string" where
  "str_nat n = (if n < 10 then [digit_char n] else str_nat (n div 10) @ [digit_char (n mod 10)])"

declare str_nat.simps [simp del]

text \<open>\<^verbatim>\<open>'{number:<{number_size}}'.format(...)\<close>: left-justified, padded with spaces.\<close>

definition ljust :: "string \<Rightarrow> nat \<Rightarrow> string" where
  "ljust s w = s @ replicate (w - length s) CHR '' ''"

text \<open>\<^verbatim>\<open>xs[i:]\<close>: a negative start counts from the end and is clipped at the start.\<close>

definition slice_from :: "int \<Rightarrow> 'a list \<Rightarrow> 'a list" where
  "slice_from i xs = (if i < 0 then drop (length xs - nat (- i)) xs else drop (nat i) xs)"

subsection \<open>The option dictionary\<close>

text \<open>
  The values an option may hold: booleans, integers and \<^verbatim>\<open>None\<close>. \<open>py_eq_True v\<close> is
  \<^verbatim>\<open>v == True\<close> (the integer 1 compares equal to \<^verbatim>\<open>True\<close>), \<open>py_int v\<close> is \<^verbatim>\<open>int(v)\<close>.
\<close>

datatype pyval = PBool bool | PInt int | PNone

datatype error = TypeError | ReError

fun py_eq_True :: "pyval \<Rightarrow> bool" where
  "py_eq_True (PBool b) = b"
| "py_eq_True (PInt i) = (i = 1)"
| "py_eq_True PNone = False"

fun py_int :: "pyval \<Rightarrow> error + int" where
  "py_int (PBool b) = Inr (if b then 1 else 0)"
| "py_int (PInt i) = Inr i"
| "py_int PNone = Inl TypeError"

type_synonym options = "string \<rightharpoonup> pyval"

record config =
  search_regex :: bool
  search_case_sensitive :: bool
  search_exclusive :: bool
  always_show_errors :: bool
  always_show_warnings :: bool
  show_line_numbers :: bool
  search_context :: int

text \<open>\<^verbatim>\<open>"K" in search_options.keys() and search_options["K"] == True\<close>\<close>

definition option_set :: "options \<Rightarrow> string \<Rightarrow> bool" where
  "option_set search_options k =
     (case search_options k of None \<Rightarrow> False | Some v \<Rightarrow> py_eq_True v)"

definition decode_options :: "options \<Rightarrow> error + config" where
  "decode_options search_options =
     (case (case search_options ''SEARCH_CONTEXT'' of None \<Rightarrow> Inr 0 | Some v \<Rightarrow> py_int v) of
        Inl e \<Rightarrow> Inl e
      | Inr c \<Rightarrow> Inr \<lparr>
          search_regex = option_set search_options ''SEARCH_REGEX'',
          search_case_sensitive = (option_set search_options ''SEARCH_CASE_SENSITIVE''
             \<or> option_set search_options ''SEARCH_REGEX''),
          search_exclusive = option_set search_options ''SEARCH_EXCLUSIVE'',
          always_show_errors = option_set search_options ''SHOW_ERRORS'',
          always_show_warnings = option_set search_options ''SHOW_WARNINGS'',
          show_line_numbers = option_set search_options ''SHOW_LINE_NUMBERS'',
          search_context = c \<rparr>)"

text \<open>The marker strings, the terms and the comparison copy are lowercased unless the
  search is case sensitive.\<close>

definition fold_case :: "config \<Rightarrow> string \<Rightarrow> string" where
  "fold_case cfg s = (if search_case_sensitive cfg then s else lower s)"

definition end_of_test_string :: "config \<Rightarrow> string" where
  "end_of_test_string cfg = fold_case cfg END_OF_TEST"

definition uvm_message_string :: "config \<Rightarrow> string" where
  "uvm_message_string cfg = fold_case cfg UVM_MESSAGE"

definition uvm_warning_string :: "config \<Rightarrow> string" where
  "uvm_warning_string cfg = fold_case cfg UVM_WARNING"

definition uvm_error_string :: "config \<Rightarrow> string" where
  "uvm_error_string cfg = fold_case cfg UVM_ERROR"

definition uvm_fatal_string :: "config \<Rightarrow> string" where
  "uvm_fatal_string cfg = fold_case cfg UVM_FATAL"

subsection \<open>The state of the scan\<close>

text \<open>
  The local variables of \<^verbatim>\<open>search\<close> that the loop updates. The fields \<open>text_v\<close>,
  \<open>last_v\<close> and \<open>context_v\<close> are the variables \<^verbatim>\<open>text\<close>, \<^verbatim>\<open>last\<close> and \<^verbatim>\<open>context\<close>.
  The dictionary \<^verbatim>\<open>matches\<close> only ever maps a key to 1: it is the list of its keys, in
  insertion order. An entry of a buffer is the pair of the formatted line number and
  the line.
\<close>

type_synonym entry = "string \<times> string"

record state =
  messages :: "entry list list"
  buffer :: "entry list"
  text_v :: "string list"
  matches :: "string list"
  match :: bool
  last_v :: bool
  context_v :: int
  line_number :: nat

definition init_state :: state where
  "init_state = \<lparr> messages = [], buffer = [], text_v = [], matches = [], match = False,
     last_v = False, context_v = 0, line_number = 0 \<rparr>"

datatype step_result = Next state | Return "string list"

subsection \<open>Printing\<close>

definition emit :: "config \<Rightarrow> entry \<Rightarrow> string" where
  "emit cfg e = (if show_line_numbers cfg then fst e @ '': '' @ snd e @ newline
                 else snd e @ newline)"

definition emit_messages :: "config \<Rightarrow> entry list list \<Rightarrow> string list" where
  "emit_messages cfg ms = concat (map (map (emit cfg)) ms)"

definition separator :: "bool \<Rightarrow> string list" where
  "separator lst = (if \<not> lst then [SEPERATION @ newline] else [])"

subsection \<open>A message header or the end of test closes the block\<close>

definition close_block :: "config \<Rightarrow> state \<Rightarrow> state" where
  "close_block cfg st =
    (let msgs0 = (if length (buffer st) > 0 then messages st @ [buffer st] else messages st);
         msgs1 = slice_from ((search_context cfg + 1) * - 1) msgs0;
         st1 = (if match st \<or> context_v st > 0
                then st \<lparr> text_v := text_v st @ separator (last_v st) @ emit_messages cfg msgs1,
                          messages := [], last_v := True \<rparr>
                else st \<lparr> messages := msgs1, last_v := False \<rparr>);
         ctx1 = (if context_v st > 0 then context_v st - 1 else context_v st);
         ctx2 = (if match st then search_context cfg else ctx1)
     in st1 \<lparr> buffer := [], context_v := ctx2, match := False \<rparr>)"

subsection \<open>Matching the terms\<close>

definition term_hit ::
  "(string \<Rightarrow> string \<Rightarrow> bool option) \<Rightarrow> config \<Rightarrow> string \<Rightarrow> string \<Rightarrow> string \<Rightarrow> error + bool" where
  "term_hit rx cfg line fline search_string =
     (if search_regex cfg
      then (case rx search_string line of None \<Rightarrow> Inl ReError | Some b \<Rightarrow> Inr b)
      else Inr (contains search_string fline))"

text \<open>\<^verbatim>\<open>matches[search_string] = 1\<close>\<close>

definition dict_set :: "string \<Rightarrow> string list \<Rightarrow> string list" where
  "dict_set k ks = (if k \<in> set ks then ks else ks @ [k])"

text \<open>The loop over the terms in exclusive mode: it updates \<^verbatim>\<open>matches\<close>.\<close>

fun mark_matches ::
  "(string \<Rightarrow> string \<Rightarrow> bool option) \<Rightarrow> config \<Rightarrow> string \<Rightarrow> string \<Rightarrow> string list
     \<Rightarrow> string list \<Rightarrow> error + string list" where
  "mark_matches rx cfg line fline [] ms = Inr ms"
| "mark_matches rx cfg line fline (s # ss) ms =
     (case term_hit rx cfg line fline s of
        Inl e \<Rightarrow> Inl e
      | Inr b \<Rightarrow> mark_matches rx cfg line fline ss (if b then dict_set s ms else ms))"

text \<open>The loop over the terms in inclusive mode: it updates \<^verbatim>\<open>match\<close>.\<close>

fun any_match ::
  "(string \<Rightarrow> string \<Rightarrow> bool option) \<Rightarrow> config \<Rightarrow> string \<Rightarrow> string \<Rightarrow> string list
     \<Rightarrow> bool \<Rightarrow> error + bool" where
  "any_match rx cfg line fline [] m = Inr m"
| "any_match rx cfg line fline (s # ss) m =
     (case term_hit rx cfg line fline s of
        Inl e \<Rightarrow> Inl e
      | Inr b \<Rightarrow> any_match rx cfg line fline ss (m \<or> b))"

subsection \<open>The force-match rules\<close>

definition force_match :: "config \<Rightarrow> string \<Rightarrow> bool" where
  "force_match cfg fline =
     (startswith (uvm_fatal_string cfg) fline
      \<or> (always_show_errors cfg \<and> startswith (uvm_error_string cfg) fline)
      \<or> (always_show_warnings cfg \<and> startswith (uvm_warning_string cfg) fline))"

subsection \<open>One iteration of the loop over the lines\<close>

definition clean :: "string \<Rightarrow> string" where
  "clean raw = strip_ansi (rstrip raw)"

definition is_boundary :: "config \<Rightarrow> string \<Rightarrow> bool" where
  "is_boundary cfg fline =
     (startswith (uvm_message_string cfg) fline \<or> contains (end_of_test_string cfg) fline)"

definition step ::
  "(string \<Rightarrow> string \<Rightarrow> bool option) \<Rightarrow> config \<Rightarrow> nat \<Rightarrow> string list \<Rightarrow> state \<Rightarrow> string
     \<Rightarrow> error + step_result" where
  "step rx cfg line_number_width search_strings st raw =
    (let n = line_number st + 1;
         line = clean raw;
         fline = fold_case cfg line;
         st1 = st \<lparr> line_number := n \<rparr>;
         st2 = (if is_boundary cfg fline then close_block cfg st1 else st1)
     in if contains (end_of_test_string cfg) fline then Inr (Return (text_v st2))
        else
          (let st3 = st2 \<lparr> buffer := buffer st2 @ [(ljust (str_nat n) line_number_width, line)],
                           match := (match st2 \<or> force_match cfg fline) \<rparr>
           in if search_exclusive cfg
              then (case mark_matches rx cfg line fline search_strings (matches st3) of
                      Inl e \<Rightarrow> Inl e
                    | Inr ms \<Rightarrow> Inr (Next (st3 \<lparr> matches := ms,
                         match := (match st3 \<or> (length ms = length search_strings
                                      \<and> length search_strings > 0)) \<rparr>)))
              else (case any_match rx cfg line fline search_strings (match st3) of
                      Inl e \<Rightarrow> Inl e
                    | Inr m \<Rightarrow> Inr (Next (st3 \<lparr> match := m \<rparr>)))))"

subsection \<open>After the loop\<close>

definition finish :: "config \<Rightarrow> state \<Rightarrow> string list" where
  "finish cfg st =
    (if match st \<or> context_v st > 0
     then (let msgs0 = (if length (messages st) > 0 then tl (messages st) else messages st);
               msgs1 = slice_from ((search_context cfg + 1) * - 1) msgs0
           in text_v st @ separator (last_v st) @ emit_messages cfg msgs1
                @ map (emit cfg) (buffer st))
     else text_v st)"

subsection \<open>The loop and the whole search\<close>

fun scan ::
  "(string \<Rightarrow> string \<Rightarrow> bool option) \<Rightarrow> config \<Rightarrow> nat \<Rightarrow> string list \<Rightarrow> state \<Rightarrow> string list
     \<Rightarrow> error + string list" where
  "scan rx cfg w search_strings st [] = Inr (finish cfg st)"
| "scan rx cfg w search_strings st (raw # file) =
     (case step rx cfg w search_strings st raw of
        Inl e \<Rightarrow> Inl e
      | Inr (Return t) \<Rightarrow> Inr t
      | Inr (Next st') \<Rightarrow> scan rx cfg w search_strings st' file)"

definition line_number_width :: "string list \<Rightarrow> nat" where
  "line_number_width file = length (str_nat (length file))"

definition search ::
  "(string \<Rightarrow> string \<Rightarrow> bool option) \<Rightarrow> string list \<Rightarrow> string list \<Rightarrow> options
     \<Rightarrow> error + string list" where
  "search rx file search_strings search_options =
     (case decode_options search_options of
        Inl e \<Rightarrow> Inl e
      | Inr cfg \<Rightarrow> scan rx cfg (line_number_width file)
          (map (fold_case cfg) search_strings) init_state file)"

subsection \<open>States without line numbers\<close>

text \<open>Auxiliary notions for the proofs: an entry, a state and the result of an iteration
  with the formatted line numbers erased.\<close>

definition blank :: "entry \<Rightarrow> entry" where
  "blank e = ([], snd e)"

definition unnumber :: "state \<Rightarrow> state" where
  "unnumber st = st \<lparr> messages := map (map blank) (messages st), buffer := map blank (buffer st) \<rparr>"

definition unnumber_result :: "error + step_result \<Rightarrow> error + step_result" where
  "unnumber_result r = (case r of Inl e \<Rightarrow> Inl e | Inr (Return t) \<Rightarrow> Inr (Return t)
      | Inr (Next s) \<Rightarrow> Inr (Next (unnumber s)))"

subsection \<open>The state in which a line is stored\<close>

text \<open>Auxiliary notion for the proofs: the state after the line number has been counted
  and, at a message header or the end of test line, the block has been closed.\<close>

definition opened :: "config \<Rightarrow> state \<Rightarrow> string \<Rightarrow> state" where
  "opened cfg st fline =
     (if is_boundary cfg fline then close_block cfg (st \<lparr> line_number := line_number st + 1 \<rparr>)
      else st \<lparr> line_number := line_number st + 1 \<rparr>)"

subsection \<open>The shape of the result\<close>

text \<open>
  A list of lines is grouped when it is a sequence of groups, each made of one
  separator line followed by at least one line that satisfies \<open>P\<close>.
\<close>

definition grouped :: "(string \<Rightarrow> bool) \<Rightarrow> string list \<Rightarrow> bool" where
  "grouped P xs = (\<exists>runs. xs = concat (map (\<lambda>r. (SEPERATION @ newline) # r) runs)
      \<and> (\<forall>r\<in>set runs. r \<noteq> [] \<and> (\<forall>x\<in>set r. P x)))"

text \<open>The entries that the loop stores for a file: each line, stripped, with its formatted
  number.\<close>

definition entries :: "nat \<Rightarrow> string list \<Rightarrow> entry list" where
  "entries w file = map (\<lambda>i. (ljust (str_nat (i + 1)) w, clean (file ! i))) [0..<length file]"

text \<open>Auxiliary notion for the proofs: what holds of the state before every line.\<close>

definition scan_inv :: "(string \<Rightarrow> bool) \<Rightarrow> entry set \<Rightarrow> state \<Rightarrow> bool" where
  "scan_inv P S st =
     (grouped P (text_v st) \<and> (last_v st \<longrightarrow> text_v st \<noteq> [])
      \<and> (buffer st = [] \<longrightarrow> \<not> match st \<and> context_v st \<le> 0)
      \<and> set (buffer st) \<subseteq> S \<and> (\<forall>m\<in>set (messages st). set m \<subseteq> S))"

subsection \<open>The recognised option keys\<close>

text \<open>The keys that \<^verbatim>\<open>search\<close> compares with \<^verbatim>\<open>True\<close>; the seventh key it reads is
  \<^verbatim>\<open>SEARCH_CONTEXT\<close>.\<close>

definition bool_keys :: "string list" where
  "bool_keys = [''SEARCH_CASE_SENSITIVE'', ''SEARCH_EXCLUSIVE'', ''SHOW_ERRORS'',
     ''SHOW_WARNINGS'', ''SHOW_LINE_NUMBERS'', ''SEARCH_REGEX'']"

subsection \<open>A sample pattern engine\<close>

text \<open>
  On a pattern without metacharacters \<^verbatim>\<open>re.search\<close> looks for the pattern as a
  substring. This engine is used where a statement is evaluated at a concrete input.
\<close>

definition rx_literal :: "string \<Rightarrow> string \<Rightarrow> bool option" where
  "rx_literal p s = Some (contains p s)"

section \<open>Properties\<close>

subsection \<open>The worked example\<close>

text \<open>
  Claim C5. For the four input lines of the example, no terms, and the options
  \<^verbatim>\<open>SHOW_ERRORS\<close> on, \<^verbatim>\<open>SHOW_LINE_NUMBERS\<close> off and \<^verbatim>\<open>SEARCH_CONTEXT\<close> 0 (not case
  sensitive, no patterns), the search returns the separator line and the error line,
  whatever the pattern engine is.
\<close>

theorem C5_example:
  "search rx
     [''# UVM_INFO hello'', ''line X'', ''# UVM_ERROR bad thing'',
      ''# --- UVM Report Summary ---'']
     []
     [''SHOW_ERRORS'' \<mapsto> PBool True, ''SHOW_LINE_NUMBERS'' \<mapsto> PBool False,
      ''SEARCH_CONTEXT'' \<mapsto> PInt 0]
   = Inr [''...'' @ newline, ''# UVM_ERROR bad thing'' @ newline]"
  by code_simp

subsection \<open>Exclusive mode\<close>

text \<open>
  Claim C1. In exclusive mode a block should match only when every term has matched
  within that block. The dictionary \<^verbatim>\<open>matches\<close> is never cleared when a block closes:
  with the terms A and B, a first block holding only B and a second block holding only
  A, the second block is printed.
\<close>

theorem C1_matches_kept_across_blocks:
  "search rx [''# UVM_INFO B'', ''# UVM_INFO A''] [''A'', ''B'']
     [''SEARCH_EXCLUSIVE'' \<mapsto> PBool True, ''SEARCH_CASE_SENSITIVE'' \<mapsto> PBool True]
   = Inr [''...'' @ newline, ''# UVM_INFO A'' @ newline]"
  by code_simp

subsection \<open>Context before a match in the last block\<close>

text \<open>
  Claim C4. With one block of context and the only match in the second and last block
  of a log without the end of test line, the first block should be printed before the
  matching one. The flush after the loop removes the oldest stored message although the
  history is not full, and the first block is lost; with the end of test line appended,
  the flush inside the loop prints both blocks.
\<close>

theorem C4_last_block_loses_context:
  "search rx [''# UVM_INFO a'', ''# UVM_INFO hit''] [''hit''] [''SEARCH_CONTEXT'' \<mapsto> PInt 1]
     = Inr [''...'' @ newline, ''# UVM_INFO hit'' @ newline]
   \<and> search rx [''# UVM_INFO a'', ''# UVM_INFO hit'', ''# --- UVM Report Summary ---'']
       [''hit''] [''SEARCH_CONTEXT'' \<mapsto> PInt 1]
     = Inr [''...'' @ newline, ''# UVM_INFO a'' @ newline, ''# UVM_INFO hit'' @ newline]"
  by code_simp

subsection \<open>Decoding the options\<close>

lemma decode_eqI:
  assumes "opts ''SEARCH_CONTEXT'' = opts' ''SEARCH_CONTEXT''"
    and "\<forall>k\<in>set bool_keys. option_set opts k = option_set opts' k"
  shows "decode_options opts = decode_options opts'"
proof -
  have "option_set opts ''SEARCH_CASE_SENSITIVE'' = option_set opts' ''SEARCH_CASE_SENSITIVE''"
    "option_set opts ''SEARCH_EXCLUSIVE'' = option_set opts' ''SEARCH_EXCLUSIVE''"
    "option_set opts ''SHOW_ERRORS'' = option_set opts' ''SHOW_ERRORS''"
    "option_set opts ''SHOW_WARNINGS'' = option_set opts' ''SHOW_WARNINGS''"
    "option_set opts ''SHOW_LINE_NUMBERS'' = option_set opts' ''SHOW_LINE_NUMBERS''"
    "option_set opts ''SEARCH_REGEX'' = option_set opts' ''SEARCH_REGEX''"
    using assms(2) by (simp_all add: bool_keys_def)
  then show ?thesis
    unfolding decode_options_def using assms(1) by (simp split: sum.splits)
qed

lemma decode_regex_ignores_case_flag:
  assumes "option_set opts ''SEARCH_REGEX''"
  shows "decode_options (opts(''SEARCH_CASE_SENSITIVE'' := v)) = decode_options opts"
proof -
  have r: "option_set (opts(''SEARCH_CASE_SENSITIVE'' := v)) k = option_set opts k"
    if "k \<noteq> ''SEARCH_CASE_SENSITIVE''" for k
    using that by (simp add: option_set_def)
  have "option_set (opts(''SEARCH_CASE_SENSITIVE'' := v)) ''SEARCH_REGEX''"
    using assms by (simp add: r)
  then show ?thesis
    unfolding decode_options_def using assms by (simp add: r split: sum.splits)
qed

subsection \<open>The only error of the loop is a pattern that does not compile\<close>

lemma term_hit_error: "term_hit rx cfg line fline s = Inl e \<Longrightarrow> e = ReError"
  by (auto simp: term_hit_def split: if_splits option.splits)

lemma mark_matches_error: "mark_matches rx cfg line fline ss ms = Inl e \<Longrightarrow> e = ReError"
  by (induction ss arbitrary: ms) (auto split: sum.splits dest: term_hit_error)

lemma any_match_error: "any_match rx cfg line fline ss m = Inl e \<Longrightarrow> e = ReError"
  by (induction ss arbitrary: m) (auto split: sum.splits dest: term_hit_error)

lemma step_error: "step rx cfg w ss st raw = Inl e \<Longrightarrow> e = ReError"
  unfolding step_def Let_def
  by (auto split: if_splits sum.splits dest: mark_matches_error any_match_error)

lemma scan_error: "scan rx cfg w ss st ls = Inl e \<Longrightarrow> e = ReError"
proof (induction ls arbitrary: st)
  case Nil
  then show ?case by simp
next
  case (Cons raw ls)
  then show ?case
    by (auto split: sum.splits step_result.splits dest: step_error)
qed

subsection \<open>Pattern mode\<close>

text \<open>
  Claim C7. When \<^verbatim>\<open>SEARCH_REGEX\<close> is on, the search is case sensitive whatever
  \<^verbatim>\<open>SEARCH_CASE_SENSITIVE\<close> holds (absent, or any value): the result is the same, the
  five marker strings and the terms are not lowercased, and a term is matched as a
  pattern against the line itself, not against the comparison copy.
\<close>

theorem C7_pattern_mode_case_sensitive:
  assumes "option_set opts ''SEARCH_REGEX''"
  shows "search rx file search_strings (opts(''SEARCH_CASE_SENSITIVE'' := v))
           = search rx file search_strings opts
         \<and> (\<forall>cfg. decode_options opts = Inr cfg \<longrightarrow>
               search_case_sensitive cfg
             \<and> end_of_test_string cfg = END_OF_TEST \<and> uvm_message_string cfg = UVM_MESSAGE
             \<and> uvm_warning_string cfg = UVM_WARNING \<and> uvm_error_string cfg = UVM_ERROR
             \<and> uvm_fatal_string cfg = UVM_FATAL
             \<and> map (fold_case cfg) search_strings = search_strings
             \<and> (\<forall>line fline s. term_hit rx cfg line fline s
                   = (case rx s line of None \<Rightarrow> Inl ReError | Some b \<Rightarrow> Inr b)))"
proof -
  have a: "search rx file search_strings (opts(''SEARCH_CASE_SENSITIVE'' := v))
           = search rx file search_strings opts"
    using assms by (simp add: search_def decode_regex_ignores_case_flag)
  have b: "search_case_sensitive cfg \<and> search_regex cfg"
    if "decode_options opts = Inr cfg" for cfg
    using that assms unfolding decode_options_def by (auto split: sum.splits)
  have c: "fold_case cfg s = s" if "decode_options opts = Inr cfg" for cfg s
    using b[OF that] by (simp add: fold_case_def)
  have d: "map (fold_case cfg) search_strings = search_strings"
    if "decode_options opts = Inr cfg" for cfg
    using c[OF that] by (simp add: map_idI)
  show ?thesis
    using a b c d
    by (simp add: end_of_test_string_def uvm_message_string_def uvm_warning_string_def
        uvm_error_string_def uvm_fatal_string_def term_hit_def)
qed

theorem C7_pattern_mode_witness:
  "search rx_literal [''# UVM_INFO Abc'', ''# UVM_INFO abc''] [''Abc'']
        ([''SEARCH_REGEX'' \<mapsto> PBool True](''SEARCH_CASE_SENSITIVE'' := Some (PBool False)))
      = search rx_literal [''# UVM_INFO Abc'', ''# UVM_INFO abc''] [''Abc'']
        [''SEARCH_REGEX'' \<mapsto> PBool True]"
proof -
  have h: "option_set [''SEARCH_REGEX'' \<mapsto> PBool True] ''SEARCH_REGEX''"
    by (simp add: option_set_def)
  show ?thesis
    by (rule C7_pattern_mode_case_sensitive [OF h, THEN conjunct1])
qed

subsection \<open>Missing and extra option entries\<close>

text \<open>
  Claim C10. A boolean option key that is absent, or holds a value that does not compare
  equal to \<^verbatim>\<open>True\<close>, gives the same result as the key holding \<^verbatim>\<open>False\<close>; an absent
  \<^verbatim>\<open>SEARCH_CONTEXT\<close> gives the same result as 0 and the search does not raise the error
  of a failed conversion; a key that is not read changes nothing, whatever it holds
  and whether it is there or not.
\<close>

theorem C10_option_defaults:
  "(k \<in> set bool_keys \<and> (opts k = None \<or> (\<exists>v. opts k = Some v \<and> \<not> py_eq_True v))
      \<longrightarrow> search rx file search_strings opts
            = search rx file search_strings (opts(k \<mapsto> PBool False)))
   \<and> (opts ''SEARCH_CONTEXT'' = None
      \<longrightarrow> search rx file search_strings opts
            = search rx file search_strings (opts(''SEARCH_CONTEXT'' \<mapsto> PInt 0))
          \<and> search rx file search_strings opts \<noteq> Inl TypeError)
   \<and> (k' \<notin> set bool_keys \<and> k' \<noteq> ''SEARCH_CONTEXT''
      \<longrightarrow> search rx file search_strings (opts(k' := x)) = search rx file search_strings opts)"
proof (intro conjI impI)
  assume h: "k \<in> set bool_keys \<and> (opts k = None \<or> (\<exists>v. opts k = Some v \<and> \<not> py_eq_True v))"
  then have ne: "k \<noteq> ''SEARCH_CONTEXT''" by (auto simp: bool_keys_def)
  have "option_set opts j = option_set (opts(k \<mapsto> PBool False)) j" for j
    using h by (auto simp: option_set_def)
  then have "decode_options opts = decode_options (opts(k \<mapsto> PBool False))"
    using ne by (intro decode_eqI) simp_all
  then show "search rx file search_strings opts
            = search rx file search_strings (opts(k \<mapsto> PBool False))"
    by (simp add: search_def)
next
  assume h: "opts ''SEARCH_CONTEXT'' = None"
  have "decode_options (opts(''SEARCH_CONTEXT'' \<mapsto> PInt 0)) = decode_options opts"
    unfolding decode_options_def using h by (simp add: option_set_def)
  then show "search rx file search_strings opts
            = search rx file search_strings (opts(''SEARCH_CONTEXT'' \<mapsto> PInt 0))"
    by (simp add: search_def)
next
  assume h: "opts ''SEARCH_CONTEXT'' = None"
  then obtain cfg where c: "decode_options opts = Inr cfg"
    by (simp add: decode_options_def)
  have "scan rx cfg w ss st f \<noteq> Inl TypeError" for w ss st f
    using scan_error by fastforce
  then show "search rx file search_strings opts \<noteq> Inl TypeError"
    using c by (simp add: search_def)
next
  assume h: "k' \<notin> set bool_keys \<and> k' \<noteq> ''SEARCH_CONTEXT''"
  have "option_set (opts(k' := x)) j = option_set opts j" if "j \<in> set bool_keys" for j
    using h that by (auto simp: option_set_def)
  then have "decode_options (opts(k' := x)) = decode_options opts"
    using h by (intro decode_eqI) auto
  then show "search rx file search_strings (opts(k' := x)) = search rx file search_strings opts"
    by (simp add: search_def)
qed

theorem C10_option_defaults_witness:
  "search rx_literal [''# UVM_ERROR e''] [] [''SHOW_ERRORS'' \<mapsto> PInt 0]
     = search rx_literal [''# UVM_ERROR e''] []
         ([''SHOW_ERRORS'' \<mapsto> PInt 0](''SHOW_ERRORS'' \<mapsto> PBool False))
   \<and> search rx_literal [''# UVM_ERROR e''] [] [''SHOW_ERRORS'' \<mapsto> PInt 0]
     = search rx_literal [''# UVM_ERROR e''] []
         ([''SHOW_ERRORS'' \<mapsto> PInt 0](''SEARCH_CONTEXT'' \<mapsto> PInt 0))
   \<and> search rx_literal [''# UVM_ERROR e''] [] [''SHOW_ERRORS'' \<mapsto> PInt 0] \<noteq> Inl TypeError
   \<and> search rx_literal [''# UVM_ERROR e''] []
         ([''SHOW_ERRORS'' \<mapsto> PInt 0](''COLOUR'' := Some PNone))
     = search rx_literal [''# UVM_ERROR e''] [] [''SHOW_ERRORS'' \<mapsto> PInt 0]"
proof -
  have h1: "''SHOW_ERRORS'' \<in> set bool_keys
      \<and> ([''SHOW_ERRORS'' \<mapsto> PInt 0] ''SHOW_ERRORS'' = None
         \<or> (\<exists>v. [''SHOW_ERRORS'' \<mapsto> PInt 0] ''SHOW_ERRORS'' = Some v \<and> \<not> py_eq_True v))"
    by (simp add: bool_keys_def)
  have h2: "[''SHOW_ERRORS'' \<mapsto> PInt 0] ''SEARCH_CONTEXT'' = None"
    by simp
  have h3: "''COLOUR'' \<notin> set bool_keys \<and> ''COLOUR'' \<noteq> ''SEARCH_CONTEXT''"
    by (simp add: bool_keys_def)
  show ?thesis
    using h1 h2 h3
      C10_option_defaults [of "''SHOW_ERRORS''" "[''SHOW_ERRORS'' \<mapsto> PInt 0]" rx_literal
        "[''# UVM_ERROR e'']" "[]" "''COLOUR''" "Some PNone"]
    by blast
qed

subsection \<open>The line number width matters only when line numbers are shown\<close>

lemma emit_blank: "\<not> show_line_numbers cfg \<Longrightarrow> emit cfg (blank e) = emit cfg e"
  by (simp add: emit_def blank_def)

lemma emit_messages_blank:
  "\<not> show_line_numbers cfg \<Longrightarrow> emit_messages cfg (map (map blank) ms) = emit_messages cfg ms"
  by (simp add: emit_messages_def emit_blank comp_def)

lemma slice_from_map: "slice_from i (map f xs) = map f (slice_from i xs)"
  by (simp add: slice_from_def drop_map)

lemma unnumber_fields [simp]:
  "messages (unnumber st) = map (map blank) (messages st)"
  "buffer (unnumber st) = map blank (buffer st)"
  "text_v (unnumber st) = text_v st"
  "matches (unnumber st) = matches st"
  "match (unnumber st) = match st"
  "last_v (unnumber st) = last_v st"
  "context_v (unnumber st) = context_v st"
  "line_number (unnumber st) = line_number st"
  by (simp_all add: unnumber_def)

lemma unnumber_idem: "unnumber (unnumber st) = unnumber st"
  by (simp add: unnumber_def blank_def comp_def)

lemma close_block_unnumber:
  assumes "\<not> show_line_numbers cfg"
  shows "close_block cfg (unnumber st) = unnumber (close_block cfg st)"
proof -
  have 1: "(if 0 < length (map blank (buffer st))
        then map (map blank) (messages st) @ [map blank (buffer st)]
        else map (map blank) (messages st))
     = map (map blank) (if 0 < length (buffer st) then messages st @ [buffer st] else messages st)"
    by simp
  show ?thesis
    unfolding close_block_def Let_def unnumber_fields 1 slice_from_map
      emit_messages_blank[OF assms]
    by (simp add: unnumber_def)
qed

lemma close_block_line_number:
  "close_block cfg (st \<lparr> line_number := n \<rparr>) = (close_block cfg st) \<lparr> line_number := n \<rparr>"
  by (simp add: close_block_def Let_def)

lemma unnumber_line_number:
  "unnumber (st \<lparr> line_number := n \<rparr>) = (unnumber st) \<lparr> line_number := n \<rparr>"
  by (simp add: unnumber_def)

lemma step_unnumber:
  assumes "\<not> show_line_numbers cfg"
  shows "unnumber_result (step rx cfg w ss st raw)
       = unnumber_result (step rx cfg w' ss (unnumber st) raw)"
proof -
  have cb: "close_block cfg ((unnumber st) \<lparr> line_number := n \<rparr>)
        = unnumber (close_block cfg (st \<lparr> line_number := n \<rparr>))" for n
    by (simp add: close_block_unnumber[OF assms] flip: unnumber_line_number)
  show ?thesis
    unfolding step_def Let_def unnumber_fields cb
    by (auto simp: unnumber_result_def unnumber_def blank_def comp_def
        split: sum.splits)
qed

lemma finish_unnumber:
  assumes "\<not> show_line_numbers cfg"
  shows "finish cfg (unnumber st) = finish cfg st"
proof -
  have 1: "(if 0 < length (map (map blank) (messages st))
        then tl (map (map blank) (messages st)) else map (map blank) (messages st))
     = map (map blank) (if 0 < length (messages st) then tl (messages st) else messages st)"
    by (simp add: map_tl)
  have 2: "map (emit cfg) (map blank xs) = map (emit cfg) xs" for xs
    by (simp add: emit_blank[OF assms])
  show ?thesis
    unfolding finish_def Let_def unnumber_fields 1 slice_from_map
      emit_messages_blank[OF assms] 2
    by simp
qed

lemma scan_width_irrelevant:
  assumes "\<not> show_line_numbers cfg"
  shows "unnumber st = unnumber st' \<Longrightarrow> scan rx cfg w ss st ls = scan rx cfg w' ss st' ls"
proof (induction ls arbitrary: st st')
  case Nil
  have "finish cfg st = finish cfg (unnumber st)"
    by (simp add: finish_unnumber[OF assms])
  also have "\<dots> = finish cfg st'"
    using Nil by (simp add: finish_unnumber[OF assms])
  finally show ?case by simp
next
  case (Cons raw ls)
  have "unnumber_result (step rx cfg w ss st raw)
      = unnumber_result (step rx cfg w' ss (unnumber st) raw)"
    by (rule step_unnumber[OF assms])
  also have "\<dots> = unnumber_result (step rx cfg w' ss st' raw)"
    unfolding Cons.prems by (rule step_unnumber[OF assms, symmetric])
  finally have eq: "unnumber_result (step rx cfg w ss st raw)
      = unnumber_result (step rx cfg w' ss st' raw)" .
  show ?case
  proof (cases "step rx cfg w ss st raw")
    case (Inl e)
    with eq have "step rx cfg w' ss st' raw = Inl e"
      by (auto simp: unnumber_result_def split: sum.splits step_result.splits)
    with Inl show ?thesis by simp
  next
    case (Inr r)
    show ?thesis
    proof (cases r)
      case (Return t)
      with Inr eq have "step rx cfg w' ss st' raw = Inr (Return t)"
        by (auto simp: unnumber_result_def split: sum.splits step_result.splits)
      with Inr Return show ?thesis by simp
    next
      case (Next s)
      with Inr eq obtain s' where s': "step rx cfg w' ss st' raw = Inr (Next s')"
        "unnumber s = unnumber s'"
        by (auto simp: unnumber_result_def split: sum.splits step_result.splits)
      show ?thesis
        using Inr Next s' Cons.IH[OF s'(2)] by simp
    qed
  qed
qed

subsection \<open>The end of test line\<close>

lemma step_end_of_test:
  assumes "contains (end_of_test_string cfg) (fold_case cfg (clean raw))"
  shows "\<exists>t. step rx cfg w ss st raw = Inr (Return t)"
  using assms by (simp add: step_def Let_def)

lemma scan_stops:
  assumes "contains (end_of_test_string cfg) (fold_case cfg (clean raw))"
  shows "scan rx cfg w ss st (pre @ raw # post) = scan rx cfg w ss st (pre @ [raw])"
proof (induction pre arbitrary: st)
  case Nil
  obtain t where "step rx cfg w ss st raw = Inr (Return t)"
    using step_end_of_test[OF assms] by blast
  then show ?case by simp
next
  case (Cons a pre)
  then show ?case by (simp split: sum.splits step_result.splits)
qed

text \<open>
  Claim C3. Once a line whose comparison copy contains the end of test marker is
  reached, the scan returns: the result is computed from the lines up to that line and
  from the width to which the line numbers are padded, and the lines after it may be
  replaced by any other lines without changing the result. Only their number is
  visible, and only when line numbers are shown, through that width.
\<close>

theorem C3_end_of_test_stops:
  assumes "decode_options opts = Inr cfg"
      and "contains (end_of_test_string cfg) (fold_case cfg (clean raw))"
  shows "search rx (pre @ raw # post) search_strings opts
           = scan rx cfg (line_number_width (pre @ raw # post))
               (map (fold_case cfg) search_strings) init_state (pre @ [raw])
       \<and> ((show_line_numbers cfg \<longrightarrow>
              line_number_width (pre @ raw # post') = line_number_width (pre @ raw # post))
          \<longrightarrow> search rx (pre @ raw # post') search_strings opts
                = search rx (pre @ raw # post) search_strings opts)"
proof (intro conjI impI)
  let ?ss = "map (fold_case cfg) search_strings"
  let ?w' = "line_number_width (pre @ raw # post')"
  let ?w = "line_number_width (pre @ raw # post)"
  have cut: "scan rx cfg ?w ?ss init_state (pre @ raw # post)
      = scan rx cfg ?w ?ss init_state (pre @ [raw])"
    by (rule scan_stops[OF assms(2)])
  then show "search rx (pre @ raw # post) search_strings opts
      = scan rx cfg ?w ?ss init_state (pre @ [raw])"
    using assms(1) by (simp add: search_def)
  assume width: "show_line_numbers cfg \<longrightarrow> ?w' = ?w"
  have "scan rx cfg ?w' ?ss init_state (pre @ raw # post')
      = scan rx cfg ?w' ?ss init_state (pre @ [raw])"
    by (rule scan_stops[OF assms(2)])
  also have "\<dots> = scan rx cfg ?w ?ss init_state (pre @ [raw])"
  proof (cases "show_line_numbers cfg")
    case True
    then show ?thesis using width by simp
  next
    case False
    then show ?thesis by (rule scan_width_irrelevant) simp
  qed
  also have "\<dots> = scan rx cfg ?w ?ss init_state (pre @ raw # post)"
    by (rule cut[symmetric])
  finally show "search rx (pre @ raw # post') search_strings opts
      = search rx (pre @ raw # post) search_strings opts"
    using assms(1) by (simp add: search_def)
qed

theorem C3_end_of_test_witness:
  "search rx_literal
      ([''# UVM_FATAL x''] @ ''# --- UVM Report Summary ---'' # [''# UVM_FATAL y'', ''hit''])
      [''hit''] [''SHOW_LINE_NUMBERS'' \<mapsto> PBool True]
   = search rx_literal
      ([''# UVM_FATAL x''] @ ''# --- UVM Report Summary ---'' # [])
      [''hit''] [''SHOW_LINE_NUMBERS'' \<mapsto> PBool True]"
proof -
  let ?cfg = "\<lparr> search_regex = False, search_case_sensitive = False,
     search_exclusive = False, always_show_errors = False, always_show_warnings = False,
     show_line_numbers = True, search_context = 0 \<rparr>"
  have h1: "decode_options [''SHOW_LINE_NUMBERS'' \<mapsto> PBool True] = Inr ?cfg"
    by (simp add: decode_options_def option_set_def)
  have h2: "contains (end_of_test_string ?cfg)
       (fold_case ?cfg (clean ''# --- UVM Report Summary ---''))"
    by code_simp
  have h3: "show_line_numbers ?cfg \<longrightarrow>
      line_number_width ([''# UVM_FATAL x''] @ ''# --- UVM Report Summary ---''
          # [''# UVM_FATAL y'', ''hit''])
      = line_number_width ([''# UVM_FATAL x''] @ ''# --- UVM Report Summary ---'' # [])"
    by code_simp
  show ?thesis
    by (rule C3_end_of_test_stops [OF h1 h2, THEN conjunct2, THEN mp, OF h3])
qed

subsection \<open>The context count is used as given\<close>

lemma slice_from_context:
  "slice_from ((c + 1) * - 1) xs
     = (if 0 \<le> c then drop (length xs - nat (c + 1)) xs else drop (nat (- c - 1)) xs)"
  by (auto simp: slice_from_def nat_diff_distrib algebra_simps intro: arg_cong2[where f=drop])

lemma decode_context:
  "decode_options (opts(''SEARCH_CONTEXT'' \<mapsto> PInt c)) = Inr cfg \<Longrightarrow> search_context cfg = c"
  by (auto simp: decode_options_def)

text \<open>
  Claim C6, as the code has it. The context count is not clamped: the integer held by
  \<^verbatim>\<open>SEARCH_CONTEXT\<close> is used as it is. When a block closes, the history \<open>h\<close> (the
  stored messages and the buffer just closed) is cut to its last \<open>c + 1\<close> entries when
  \<open>c\<close> is not negative; for a negative \<open>c\<close> its first \<open>- c - 1\<close> entries are dropped
  instead, so \<open>- 1\<close> keeps the whole history. What is kept is stored, or printed when
  the block matched or context is pending; after a match the pending context is \<open>c\<close>.
\<close>

theorem C6_context_not_clamped:
  assumes "decode_options (opts(''SEARCH_CONTEXT'' \<mapsto> PInt c)) = Inr cfg"
      and "h = (if buffer st = [] then messages st else messages st @ [buffer st])"
      and "kept = (if 0 \<le> c then drop (length h - nat (c + 1)) h else drop (nat (- c - 1)) h)"
  shows "search_context cfg = c
       \<and> (\<not> (match st \<or> 0 < context_v st) \<longrightarrow>
            messages (close_block cfg st) = kept \<and> text_v (close_block cfg st) = text_v st)
       \<and> (match st \<or> 0 < context_v st \<longrightarrow>
            messages (close_block cfg st) = []
            \<and> text_v (close_block cfg st)
                = text_v st @ separator (last_v st) @ emit_messages cfg kept)
       \<and> context_v (close_block cfg st)
           = (if match st then c else if 0 < context_v st then context_v st - 1 else context_v st)"
proof -
  have c: "search_context cfg = c" using assms(1) by (rule decode_context)
  have k: "slice_from ((search_context cfg + 1) * - 1) h = kept"
    unfolding c assms(3) by (rule slice_from_context)
  have h': "(if 0 < length (buffer st) then messages st @ [buffer st] else messages st) = h"
    unfolding assms(2) by simp
  show ?thesis
    unfolding close_block_def Let_def h' k using c by simp
qed

theorem C6_context_not_clamped_witness:
  "search_context \<lparr> search_regex = False, search_case_sensitive = False,
       search_exclusive = False, always_show_errors = False, always_show_warnings = False,
       show_line_numbers = False, search_context = - 1 \<rparr> = - 1
   \<and> messages (close_block \<lparr> search_regex = False, search_case_sensitive = False,
       search_exclusive = False, always_show_errors = False, always_show_warnings = False,
       show_line_numbers = False, search_context = - 1 \<rparr>
       (init_state \<lparr> messages := [[(''1'', ''a'')], [(''2'', ''b'')]],
                      buffer := [(''3'', ''c'')] \<rparr>))
     = [[(''1'', ''a'')], [(''2'', ''b'')], [(''3'', ''c'')]]"
proof -
  let ?cfg = "\<lparr> search_regex = False, search_case_sensitive = False,
       search_exclusive = False, always_show_errors = False, always_show_warnings = False,
       show_line_numbers = False, search_context = - 1 \<rparr>"
  let ?st = "init_state \<lparr> messages := [[(''1'', ''a'')], [(''2'', ''b'')]],
                      buffer := [(''3'', ''c'')] \<rparr>"
  let ?h = "[[(''1'', ''a'')], [(''2'', ''b'')], [(''3'', ''c'')]]"
  have h1: "decode_options (Map.empty(''SEARCH_CONTEXT'' \<mapsto> PInt (- 1))) = Inr ?cfg"
    by (simp add: decode_options_def option_set_def)
  have h2: "?h = (if buffer ?st = [] then messages ?st else messages ?st @ [buffer ?st])"
    by (simp add: init_state_def)
  have h3: "?h = (if 0 \<le> (- 1 :: int) then drop (length ?h - nat (- 1 + 1)) ?h
                   else drop (nat (- (- 1) - 1)) ?h)"
    by simp
  have nm: "\<not> (match ?st \<or> 0 < context_v ?st)"
    by (simp add: init_state_def)
  show ?thesis
    using C6_context_not_clamped [OF h1 h2 h3] nm by blast
qed

text \<open>The claim as stated fails: a context count of \<open>- 1\<close> gives another result than 0.\<close>

theorem C6_no_clamp_counterexample:
  "search rx_literal [''# UVM_INFO a'', ''# UVM_FATAL c'', ''# UVM_INFO d''] []
      [''SEARCH_CONTEXT'' \<mapsto> PInt (- 1)]
   \<noteq> search rx_literal [''# UVM_INFO a'', ''# UVM_FATAL c'', ''# UVM_INFO d''] []
      [''SEARCH_CONTEXT'' \<mapsto> PInt 0]"
  by code_simp

subsection \<open>One iteration, result by result\<close>

lemma any_match_Inr:
  "any_match rx cfg line fline ss m = Inr b \<Longrightarrow>
     b = (m \<or> (\<exists>s\<in>set ss. term_hit rx cfg line fline s = Inr True))"
proof (induction ss arbitrary: m)
  case Nil
  then show ?case by simp
next
  case (Cons s ss)
  then show ?case by (auto split: sum.splits)
qed

lemma close_block_fields [simp]:
  "line_number (close_block cfg st) = line_number st"
  "matches (close_block cfg st) = matches st"
  "buffer (close_block cfg st) = []"
  "match (close_block cfg st) = False"
  by (simp_all add: close_block_def Let_def)

lemma step_Return:
  assumes "step rx cfg w ss st raw = Inr (Return t)"
  shows "contains (end_of_test_string cfg) (fold_case cfg (clean raw))
       \<and> t = text_v (close_block cfg (st \<lparr> line_number := line_number st + 1 \<rparr>))"
  using assms unfolding step_def Let_def is_boundary_def
  by (auto split: if_splits sum.splits)

lemma step_Next:
  assumes "step rx cfg w ss st raw = Inr (Next st')"
  shows "\<not> contains (end_of_test_string cfg) (fold_case cfg (clean raw))"
    and "buffer st' = buffer (opened cfg st (fold_case cfg (clean raw)))
            @ [(ljust (str_nat (line_number st + 1)) w, clean raw)]"
    and "messages st' = messages (opened cfg st (fold_case cfg (clean raw)))"
    and "text_v st' = text_v (opened cfg st (fold_case cfg (clean raw)))"
    and "last_v st' = last_v (opened cfg st (fold_case cfg (clean raw)))"
    and "context_v st' = context_v (opened cfg st (fold_case cfg (clean raw)))"
    and "line_number st' = line_number st + 1"
    and "match (opened cfg st (fold_case cfg (clean raw)))
           \<or> force_match cfg (fold_case cfg (clean raw)) \<Longrightarrow> match st'"
  using assms unfolding step_def Let_def opened_def
  by (auto split: if_splits sum.splits dest: any_match_Inr)

subsection \<open>A matched block is printed\<close>

lemma slice_from_keeps_last:
  assumes "- 1 \<le> c"
  shows "\<exists>ys. slice_from ((c + 1) * - 1) (ms @ [b]) = ys @ [b] \<and> set ys \<subseteq> set ms"
proof -
  have "\<exists>n. n \<le> length ms \<and> slice_from ((c + 1) * - 1) (ms @ [b]) = drop n (ms @ [b])"
  proof (cases "0 \<le> c")
    case True
    then have "length (ms @ [b]) - nat (c + 1) \<le> length ms" by simp
    then show ?thesis unfolding slice_from_context using True by auto
  next
    case False
    with assms have "c = - 1" by simp
    then have "slice_from ((c + 1) * - 1) (ms @ [b]) = drop 0 (ms @ [b])"
      unfolding slice_from_context by simp
    then show ?thesis by blast
  qed
  then obtain n where n: "n \<le> length ms"
    "slice_from ((c + 1) * - 1) (ms @ [b]) = drop n (ms @ [b])" by blast
  then have "slice_from ((c + 1) * - 1) (ms @ [b]) = drop n ms @ [b]" by simp
  moreover have "set (drop n ms) \<subseteq> set ms" by (rule set_drop_subset)
  ultimately show ?thesis by blast
qed

lemma close_block_text:
  "text_v (close_block cfg st) =
     (if match st \<or> 0 < context_v st
      then text_v st @ separator (last_v st) @ emit_messages cfg
         (slice_from ((search_context cfg + 1) * - 1)
            (if 0 < length (buffer st) then messages st @ [buffer st] else messages st))
      else text_v st)"
  unfolding close_block_def Let_def by simp

lemma close_block_text_mono: "set (text_v st) \<subseteq> set (text_v (close_block cfg st))"
  unfolding close_block_text by simp

lemma close_block_prints_buffer:
  assumes "match st" "e \<in> set (buffer st)" "- 1 \<le> search_context cfg"
  shows "emit cfg e \<in> set (text_v (close_block cfg st))"
proof -
  have ne: "0 < length (buffer st)" using assms(2) by (cases "buffer st") simp_all
  obtain ys where ys: "slice_from ((search_context cfg + 1) * - 1) (messages st @ [buffer st])
      = ys @ [buffer st]"
    using slice_from_keeps_last[OF assms(3), of "messages st" "buffer st"] by (elim exE conjE)
  have 1: "emit cfg e \<in> set (emit_messages cfg (ys @ [buffer st]))"
    using assms(2) by (simp add: emit_messages_def)
  have 2: "text_v (close_block cfg st)
      = text_v st @ separator (last_v st) @ emit_messages cfg (ys @ [buffer st])"
    unfolding close_block_text by (simp only: assms(1) ne ys if_True simp_thms)
  show ?thesis unfolding 2 using 1 by simp
qed

lemma opened_text_mono: "set (text_v st) \<subseteq> set (text_v (opened cfg st fline))"
  using close_block_text_mono[of "st \<lparr> line_number := line_number st + 1 \<rparr>" cfg]
  by (simp add: opened_def)

lemma scan_text_mono:
  "scan rx cfg w ss st ls = Inr out \<Longrightarrow> set (text_v st) \<subseteq> set out"
proof (induction ls arbitrary: st)
  case Nil
  then show ?case by (auto simp: finish_def Let_def split: if_splits)
next
  case (Cons raw ls)
  show ?case
  proof (cases "step rx cfg w ss st raw")
    case (Inl e)
    with Cons.prems show ?thesis by simp
  next
    case (Inr r)
    show ?thesis
    proof (cases r)
      case (Return t)
      with Inr Cons.prems have "out = t" by simp
      moreover have "t = text_v (close_block cfg (st \<lparr> line_number := line_number st + 1 \<rparr>))"
        using step_Return Inr Return by blast
      ultimately show ?thesis
        using close_block_text_mono[of "st \<lparr> line_number := line_number st + 1 \<rparr>" cfg]
        by simp
    next
      case (Next st')
      with Inr Cons.prems have "scan rx cfg w ss st' ls = Inr out" by simp
      then have "set (text_v st') \<subseteq> set out" by (rule Cons.IH)
      moreover have "text_v st' = text_v (opened cfg st (fold_case cfg (clean raw)))"
        using step_Next(4) Inr Next by blast
      ultimately show ?thesis
        using opened_text_mono[of st cfg "fold_case cfg (clean raw)"] by auto
    qed
  qed
qed

lemma scan_prints_matched_buffer:
  assumes "- 1 \<le> search_context cfg"
  shows "scan rx cfg w ss st ls = Inr out \<Longrightarrow> match st \<Longrightarrow> e \<in> set (buffer st)
           \<Longrightarrow> emit cfg e \<in> set out"
proof (induction ls arbitrary: st)
  case Nil
  then show ?case by (auto simp: finish_def Let_def)
next
  case (Cons raw ls)
  let ?st1 = "st \<lparr> line_number := line_number st + 1 \<rparr>"
  let ?fline = "fold_case cfg (clean raw)"
  have pr: "emit cfg e \<in> set (text_v (close_block cfg ?st1))"
    using close_block_prints_buffer[of ?st1 e cfg] Cons.prems(2,3) assms by simp
  show ?case
  proof (cases "step rx cfg w ss st raw")
    case (Inl e)
    with Cons.prems show ?thesis by simp
  next
    case (Inr r)
    show ?thesis
    proof (cases r)
      case (Return t)
      with Inr Cons.prems have "out = t" by simp
      moreover have "t = text_v (close_block cfg ?st1)"
        using step_Return Inr Return by blast
      ultimately show ?thesis using pr by simp
    next
      case (Next st')
      with Inr have st': "step rx cfg w ss st raw = Inr (Next st')" by simp
      from Next Inr Cons.prems have sc: "scan rx cfg w ss st' ls = Inr out" by simp
      show ?thesis
      proof (cases "is_boundary cfg ?fline")
        case True
        then have "text_v st' = text_v (close_block cfg ?st1)"
          using step_Next(4)[OF st'] by (simp add: opened_def)
        then show ?thesis using pr scan_text_mono[OF sc] by auto
      next
        case False
        then have op: "opened cfg st ?fline = ?st1" by (simp add: opened_def)
        have "e \<in> set (buffer st')"
          using step_Next(2)[OF st'] Cons.prems(3) by (simp add: op)
        moreover have "match st'"
          using step_Next(8)[OF st'] Cons.prems(2) by (simp add: op)
        ultimately show ?thesis using Cons.IH[OF sc] by blast
      qed
    qed
  qed
qed

lemma scan_prefix:
  assumes "\<forall>x\<in>set pre. \<not> contains (end_of_test_string cfg) (fold_case cfg (clean x))"
  shows "scan rx cfg w ss st (pre @ rest) = Inr out \<Longrightarrow>
     \<exists>st'. line_number st' = line_number st + length pre \<and> scan rx cfg w ss st' rest = Inr out"
  using assms
proof (induction pre arbitrary: st)
  case Nil
  then have "line_number st = line_number st + length ([]::string list)
      \<and> scan rx cfg w ss st rest = Inr out" by simp
  then show ?case by blast
next
  case (Cons raw pre)
  show ?case
  proof (cases "step rx cfg w ss st raw")
    case (Inl e)
    with Cons.prems show ?thesis by simp
  next
    case (Inr r)
    show ?thesis
    proof (cases r)
      case (Return t)
      then have "contains (end_of_test_string cfg) (fold_case cfg (clean raw))"
        using step_Return Inr by blast
      with Cons.prems(2) show ?thesis by simp
    next
      case (Next st')
      with Inr have st': "step rx cfg w ss st raw = Inr (Next st')" by simp
      from Next Inr Cons.prems have sc: "scan rx cfg w ss st' (pre @ rest) = Inr out" by simp
      obtain st'' where "line_number st'' = line_number st' + length pre"
        "scan rx cfg w ss st'' rest = Inr out"
        using Cons.IH[OF sc] Cons.prems(2) by auto
      then show ?thesis using step_Next(7)[OF st'] by auto
    qed
  qed
qed

lemma scan_prints_forced_line:
  assumes "- 1 \<le> search_context cfg"
      and "scan rx cfg w ss init_state (pre @ raw # post) = Inr out"
      and "\<forall>x\<in>set (pre @ [raw]). \<not> contains (end_of_test_string cfg) (fold_case cfg (clean x))"
      and "force_match cfg (fold_case cfg (clean raw))"
  shows "emit cfg (ljust (str_nat (length pre + 1)) w, clean raw) \<in> set out"
proof -
  obtain st1 where st1: "line_number st1 = length pre"
    "scan rx cfg w ss st1 (raw # post) = Inr out"
    using scan_prefix[of pre cfg rx w ss init_state "raw # post" out] assms(2,3)
    by (auto simp: init_state_def)
  show ?thesis
  proof (cases "step rx cfg w ss st1 raw")
    case (Inl e)
    with st1(2) show ?thesis by simp
  next
    case (Inr r)
    show ?thesis
    proof (cases r)
      case (Return t)
      then have "contains (end_of_test_string cfg) (fold_case cfg (clean raw))"
        using step_Return Inr by blast
      with assms(3) show ?thesis by simp
    next
      case (Next st2)
      with Inr have st2: "step rx cfg w ss st1 raw = Inr (Next st2)" by simp
      from Next Inr st1(2) have sc: "scan rx cfg w ss st2 post = Inr out" by simp
      have "match st2" using step_Next(8)[OF st2] assms(4) by simp
      moreover have "(ljust (str_nat (length pre + 1)) w, clean raw) \<in> set (buffer st2)"
        using step_Next(2)[OF st2] st1(1) by simp
      ultimately show ?thesis
        using scan_prints_matched_buffer[OF assms(1) sc] by blast
    qed
  qed
qed

subsection \<open>The marker strings\<close>

lemma startswith_append: "startswith (p @ q) s \<Longrightarrow> startswith p s"
  unfolding startswith_def
  by (metis append_eq_conv_conj append_take_drop_id take_append length_append take_take min.absorb1 le_add1)

lemma fold_case_append: "fold_case cfg (a @ b) = fold_case cfg a @ fold_case cfg b"
  by (simp add: fold_case_def lower_def)

lemma marker_is_message:
  "startswith (uvm_fatal_string cfg) s \<Longrightarrow> startswith (uvm_message_string cfg) s"
  "startswith (uvm_error_string cfg) s \<Longrightarrow> startswith (uvm_message_string cfg) s"
  "startswith (uvm_warning_string cfg) s \<Longrightarrow> startswith (uvm_message_string cfg) s"
proof -
  have f: "UVM_FATAL = UVM_MESSAGE @ ''FATAL''" "UVM_ERROR = UVM_MESSAGE @ ''ERROR''"
    "UVM_WARNING = UVM_MESSAGE @ ''WARNING''"
    by (simp_all add: UVM_FATAL_def UVM_ERROR_def UVM_WARNING_def UVM_MESSAGE_def)
  show "startswith (uvm_fatal_string cfg) s \<Longrightarrow> startswith (uvm_message_string cfg) s"
    unfolding uvm_fatal_string_def uvm_message_string_def f fold_case_append
    by (rule startswith_append)
  show "startswith (uvm_error_string cfg) s \<Longrightarrow> startswith (uvm_message_string cfg) s"
    unfolding uvm_error_string_def uvm_message_string_def f fold_case_append
    by (rule startswith_append)
  show "startswith (uvm_warning_string cfg) s \<Longrightarrow> startswith (uvm_message_string cfg) s"
    unfolding uvm_warning_string_def uvm_message_string_def f fold_case_append
    by (rule startswith_append)
qed

lemma marker_seventh:
  "startswith (uvm_fatal_string cfg) s \<Longrightarrow> take 7 s = fold_case cfg ''# UVM_F''"
  "startswith (uvm_error_string cfg) s \<Longrightarrow> take 7 s = fold_case cfg ''# UVM_E''"
  "startswith (uvm_warning_string cfg) s \<Longrightarrow> take 7 s = fold_case cfg ''# UVM_W''"
proof -
  have f: "UVM_FATAL = ''# UVM_F'' @ ''ATAL''" "UVM_ERROR = ''# UVM_E'' @ ''RROR''"
    "UVM_WARNING = ''# UVM_W'' @ ''ARNING''"
    by (simp_all add: UVM_FATAL_def UVM_ERROR_def UVM_WARNING_def)
  have l: "length (fold_case cfg x) = length x" for x
    by (simp add: fold_case_def lower_def)
  have t: "startswith p s \<Longrightarrow> length p = 7 \<Longrightarrow> take 7 s = p" for p
    by (simp add: startswith_def)
  show "startswith (uvm_fatal_string cfg) s \<Longrightarrow> take 7 s = fold_case cfg ''# UVM_F''"
    unfolding uvm_fatal_string_def f fold_case_append
    by (rule t, erule startswith_append) (simp add: l)
  show "startswith (uvm_error_string cfg) s \<Longrightarrow> take 7 s = fold_case cfg ''# UVM_E''"
    unfolding uvm_error_string_def f fold_case_append
    by (rule t, erule startswith_append) (simp add: l)
  show "startswith (uvm_warning_string cfg) s \<Longrightarrow> take 7 s = fold_case cfg ''# UVM_W''"
    unfolding uvm_warning_string_def f fold_case_append
    by (rule t, erule startswith_append) (simp add: l)
qed

lemma seventh_distinct:
  "fold_case cfg ''# UVM_F'' \<noteq> fold_case cfg ''# UVM_E''"
  "fold_case cfg ''# UVM_F'' \<noteq> fold_case cfg ''# UVM_W''"
  "fold_case cfg ''# UVM_E'' \<noteq> fold_case cfg ''# UVM_W''"
proof -
  have "lower ''# UVM_F'' = ''# uvm_f''" "lower ''# UVM_E'' = ''# uvm_e''"
    "lower ''# UVM_W'' = ''# uvm_w''"
    by code_simp+
  then show "fold_case cfg ''# UVM_F'' \<noteq> fold_case cfg ''# UVM_E''"
    "fold_case cfg ''# UVM_F'' \<noteq> fold_case cfg ''# UVM_W''"
    "fold_case cfg ''# UVM_E'' \<noteq> fold_case cfg ''# UVM_W''"
    by (simp_all add: fold_case_def)
qed

lemma force_match_fatal:
  "startswith (uvm_fatal_string cfg) s \<Longrightarrow> force_match cfg s"
  by (simp add: force_match_def)

lemma force_match_error:
  assumes "startswith (uvm_error_string cfg) s"
  shows "force_match cfg s = always_show_errors cfg"
  using assms marker_seventh[of cfg s] seventh_distinct[of cfg]
  by (auto simp: force_match_def)

lemma force_match_warning:
  assumes "startswith (uvm_warning_string cfg) s"
  shows "force_match cfg s = always_show_warnings cfg"
  using assms marker_seventh[of cfg s] seventh_distinct[of cfg]
  by (auto simp: force_match_def)

subsection \<open>The match flag after a line\<close>

lemma step_Next_match:
  assumes "step rx cfg w ss st raw = Inr (Next st')"
  shows "match st' =
     ((\<not> is_boundary cfg (fold_case cfg (clean raw)) \<and> match st)
      \<or> force_match cfg (fold_case cfg (clean raw))
      \<or> (if search_exclusive cfg then length (matches st') = length ss \<and> 0 < length ss
          else (\<exists>s\<in>set ss. term_hit rx cfg (clean raw) (fold_case cfg (clean raw)) s
                  = Inr True)))"
proof (cases "search_exclusive cfg")
  case True
  then show ?thesis
    using assms unfolding step_def Let_def
    by (auto split: if_splits sum.splits)
next
  case False
  let ?fline = "fold_case cfg (clean raw)"
  let ?m = "(\<not> is_boundary cfg ?fline \<and> match st) \<or> force_match cfg ?fline"
  have "any_match rx cfg (clean raw) ?fline ss ?m = Inr (match st')"
    using assms False unfolding step_def Let_def
    by (auto split: if_splits sum.splits)
  from any_match_Inr[OF this] show ?thesis using False by auto
qed

lemma step_Next_no_terms:
  assumes "step rx cfg w [] st raw = Inr (Next st')"
  shows "matches st' = matches st"
    and "match st' = ((\<not> is_boundary cfg (fold_case cfg (clean raw)) \<and> match st)
           \<or> force_match cfg (fold_case cfg (clean raw)))"
proof -
  show "matches st' = matches st"
    using assms unfolding step_def Let_def
    by (auto split: if_splits sum.splits)
  show "match st' = ((\<not> is_boundary cfg (fold_case cfg (clean raw)) \<and> match st)
           \<or> force_match cfg (fold_case cfg (clean raw)))"
    using step_Next_match[OF assms] by simp
qed

lemma step_no_terms_total: "step rx cfg w [] st raw \<noteq> Inl e"
  unfolding step_def Let_def by (simp split: if_splits)

lemma scan_no_terms_total: "\<exists>out. scan rx cfg w [] st ls = Inr out"
proof (induction ls arbitrary: st)
  case Nil
  then show ?case by simp
next
  case (Cons raw ls)
  show ?case
  proof (cases "step rx cfg w [] st raw")
    case (Inl e)
    then show ?thesis using step_no_terms_total by blast
  next
    case (Inr r)
    then show ?thesis using Cons.IH by (cases r) simp_all
  qed
qed

lemma close_block_quiet:
  assumes "\<not> match st" "context_v st \<le> 0"
  shows "text_v (close_block cfg st) = text_v st"
    and "context_v (close_block cfg st) = context_v st"
  using assms unfolding close_block_def Let_def by simp_all

lemma scan_quiet:
  assumes "\<forall>raw\<in>set ls. \<not> force_match cfg (fold_case cfg (clean raw))"
      and "\<not> match st" "context_v st \<le> 0" "text_v st = []"
  shows "scan rx cfg w [] st ls = Inr []"
  using assms
proof (induction ls arbitrary: st)
  case Nil
  then show ?case by (simp add: finish_def)
next
  case (Cons raw ls)
  let ?st1 = "st \<lparr> line_number := line_number st + 1 \<rparr>"
  let ?fline = "fold_case cfg (clean raw)"
  have q1: "\<not> match ?st1" "context_v ?st1 \<le> 0" using Cons.prems by simp_all
  have op: "text_v (opened cfg st ?fline) = []" "context_v (opened cfg st ?fline) \<le> 0"
    using close_block_quiet[OF q1, of cfg] Cons.prems by (simp_all add: opened_def)
  show ?case
  proof (cases "step rx cfg w [] st raw")
    case (Inl e)
    then show ?thesis using step_no_terms_total by blast
  next
    case (Inr r)
    show ?thesis
    proof (cases r)
      case (Return t)
      then have "t = text_v (close_block cfg ?st1)" using step_Return Inr by blast
      then have "t = []" using close_block_quiet(1)[OF q1] Cons.prems by simp
      then show ?thesis using Inr Return by simp
    next
      case (Next st')
      with Inr have st': "step rx cfg w [] st raw = Inr (Next st')" by simp
      have "\<not> match st'"
        using step_Next_no_terms(2)[OF st'] Cons.prems by simp
      moreover have "context_v st' \<le> 0" "text_v st' = []"
        using step_Next(4,6)[OF st'] op by simp_all
      ultimately have "scan rx cfg w [] st' ls = Inr []"
        using Cons.IH Cons.prems(1) by simp
      then show ?thesis using Inr Next by simp
    qed
  qed
qed

subsection \<open>Lines that are always shown\<close>

text \<open>
  Claim C8, as the code has it. The rules apply to a line that the loop stores, that is
  a line on which, and before which, the end of test marker does not occur. After such a
  line the match flag is set when the comparison copy starts with the fatal marker, and
  when it starts with the error marker while \<^verbatim>\<open>SHOW_ERRORS\<close> is on. When it starts
  with the error marker while \<^verbatim>\<open>SHOW_ERRORS\<close> is off, the flag is not set if there are
  no terms, and in inclusive mode it is set exactly when some term hits this line;
  nothing is said of exclusive mode with terms. Likewise for the warning marker and
  \<^verbatim>\<open>SHOW_WARNINGS\<close>. A stored line that starts with the fatal marker, or with the error
  marker while \<^verbatim>\<open>SHOW_ERRORS\<close> is on, or with the warning marker while
  \<^verbatim>\<open>SHOW_WARNINGS\<close> is on, is in the result, provided the search returns one and the
  context count is at least \<open>- 1\<close>.
\<close>

theorem C8_force_match_rules:
  assumes "decode_options opts = Inr cfg"
      and "fline = fold_case cfg (clean raw)"
  shows "(step rx cfg w ss st raw = Inr (Next st') \<longrightarrow>
            (startswith (uvm_fatal_string cfg) fline \<longrightarrow> match st')
          \<and> (startswith (uvm_error_string cfg) fline \<longrightarrow>
                (always_show_errors cfg \<longrightarrow> match st')
              \<and> (\<not> always_show_errors cfg \<and> \<not> search_exclusive cfg \<longrightarrow>
                   match st'
                     = (\<exists>s\<in>set ss. term_hit rx cfg (clean raw) fline s = Inr True))
              \<and> (\<not> always_show_errors cfg \<and> ss = [] \<longrightarrow> \<not> match st'))
          \<and> (startswith (uvm_warning_string cfg) fline \<longrightarrow>
                (always_show_warnings cfg \<longrightarrow> match st')
              \<and> (\<not> always_show_warnings cfg \<and> \<not> search_exclusive cfg \<longrightarrow>
                   match st'
                     = (\<exists>s\<in>set ss. term_hit rx cfg (clean raw) fline s = Inr True))
              \<and> (\<not> always_show_warnings cfg \<and> ss = [] \<longrightarrow> \<not> match st')))
       \<and> (- 1 \<le> search_context cfg
            \<and> (\<forall>x\<in>set (pre @ [raw]).
                  \<not> contains (end_of_test_string cfg) (fold_case cfg (clean x)))
            \<and> (startswith (uvm_fatal_string cfg) fline
                \<or> (always_show_errors cfg \<and> startswith (uvm_error_string cfg) fline)
                \<or> (always_show_warnings cfg \<and> startswith (uvm_warning_string cfg) fline))
            \<and> search rx (pre @ raw # post) ss opts = Inr out
          \<longrightarrow> emit cfg (ljust (str_nat (length pre + 1))
                            (line_number_width (pre @ raw # post)), clean raw) \<in> set out)"
proof (intro conjI impI)
  assume s: "step rx cfg w ss st raw = Inr (Next st')"
  note m = step_Next_match[OF s, folded assms(2)]
  {
    assume "startswith (uvm_fatal_string cfg) fline"
    then show "match st'" using m force_match_fatal by blast
  next
    assume e: "startswith (uvm_error_string cfg) fline"
    then have b: "is_boundary cfg fline"
      using marker_is_message(2) by (simp add: is_boundary_def)
    note f = force_match_error[OF e]
    {
      assume "always_show_errors cfg"
      then show "match st'" using m f by simp
    next
      assume "\<not> always_show_errors cfg \<and> \<not> search_exclusive cfg"
      then show "match st'
          = (\<exists>s\<in>set ss. term_hit rx cfg (clean raw) fline s = Inr True)"
        using m f b by simp
    next
      assume "\<not> always_show_errors cfg \<and> ss = []"
      then show "\<not> match st'" using m f b by simp
    }
  next
    assume e: "startswith (uvm_warning_string cfg) fline"
    then have b: "is_boundary cfg fline"
      using marker_is_message(3) by (simp add: is_boundary_def)
    note f = force_match_warning[OF e]
    {
      assume "always_show_warnings cfg"
      then show "match st'" using m f by simp
    next
      assume "\<not> always_show_warnings cfg \<and> \<not> search_exclusive cfg"
      then show "match st'
          = (\<exists>s\<in>set ss. term_hit rx cfg (clean raw) fline s = Inr True)"
        using m f b by simp
    next
      assume "\<not> always_show_warnings cfg \<and> ss = []"
      then show "\<not> match st'" using m f b by simp
    }
  }
next
  assume h: "- 1 \<le> search_context cfg
            \<and> (\<forall>x\<in>set (pre @ [raw]).
                  \<not> contains (end_of_test_string cfg) (fold_case cfg (clean x)))
            \<and> (startswith (uvm_fatal_string cfg) fline
                \<or> (always_show_errors cfg \<and> startswith (uvm_error_string cfg) fline)
                \<or> (always_show_warnings cfg \<and> startswith (uvm_warning_string cfg) fline))
            \<and> search rx (pre @ raw # post) ss opts = Inr out"
  then have sc: "scan rx cfg (line_number_width (pre @ raw # post))
      (map (fold_case cfg) ss) init_state (pre @ raw # post) = Inr out"
    using assms(1) by (simp add: search_def)
  from h have fm: "force_match cfg (fold_case cfg (clean raw))"
    unfolding force_match_def assms(2) by blast
  show "emit cfg (ljust (str_nat (length pre + 1))
                            (line_number_width (pre @ raw # post)), clean raw) \<in> set out"
    using scan_prints_forced_line[OF _ sc _ fm] h by blast
qed

theorem C8_force_match_witness:
  "match \<lparr> messages = [], buffer = [(''1'', ''# UVM_FATAL x'')], text_v = [],
          matches = [], match = True, last_v = False, context_v = 0, line_number = 1 \<rparr>
   \<and> match \<lparr> messages = [], buffer = [(''1'', ''# UVM_ERROR x'')], text_v = [],
          matches = [], match = True, last_v = False, context_v = 0, line_number = 1 \<rparr>
   \<and> match \<lparr> messages = [], buffer = [(''1'', ''# UVM_WARNING x'')], text_v = [],
          matches = [], match = True, last_v = False, context_v = 0, line_number = 1 \<rparr>
   \<and> \<not> match \<lparr> messages = [], buffer = [(''1'', ''# UVM_ERROR x'')], text_v = [],
          matches = [], match = False, last_v = False, context_v = 0, line_number = 1 \<rparr>
   \<and> \<not> match \<lparr> messages = [], buffer = [(''1'', ''# UVM_WARNING x'')], text_v = [],
          matches = [], match = False, last_v = False, context_v = 0, line_number = 1 \<rparr>
   \<and> emit \<lparr> search_regex = False, search_case_sensitive = False,
          search_exclusive = False, always_show_errors = True, always_show_warnings = True,
          show_line_numbers = False, search_context = 0 \<rparr>
        (ljust (str_nat (length ([] :: string list) + 1))
           (line_number_width ([] @ ''# UVM_FATAL x'' # [])), clean ''# UVM_FATAL x'')
      \<in> set [''...'' @ newline, ''# UVM_FATAL x'' @ newline]"
proof -
  let ?cfg = "\<lparr> search_regex = False, search_case_sensitive = False,
          search_exclusive = False, always_show_errors = True, always_show_warnings = True,
          show_line_numbers = False, search_context = 0 \<rparr>"
  let ?off = "\<lparr> search_regex = False, search_case_sensitive = False,
          search_exclusive = False, always_show_errors = False, always_show_warnings = False,
          show_line_numbers = False, search_context = 0 \<rparr>"
  let ?opts = "[''SHOW_ERRORS'' \<mapsto> PBool True, ''SHOW_WARNINGS'' \<mapsto> PBool True]"
  let ?stF = "\<lparr> messages = [], buffer = [(''1'', ''# UVM_FATAL x'')], text_v = [],
          matches = [], match = True, last_v = False, context_v = 0, line_number = 1 \<rparr>"
  let ?stE = "\<lparr> messages = [], buffer = [(''1'', ''# UVM_ERROR x'')], text_v = [],
          matches = [], match = True, last_v = False, context_v = 0, line_number = 1 \<rparr>"
  let ?stW = "\<lparr> messages = [], buffer = [(''1'', ''# UVM_WARNING x'')], text_v = [],
          matches = [], match = True, last_v = False, context_v = 0, line_number = 1 \<rparr>"
  let ?stEoff = "\<lparr> messages = [], buffer = [(''1'', ''# UVM_ERROR x'')], text_v = [],
          matches = [], match = False, last_v = False, context_v = 0, line_number = 1 \<rparr>"
  let ?stWoff = "\<lparr> messages = [], buffer = [(''1'', ''# UVM_WARNING x'')], text_v = [],
          matches = [], match = False, last_v = False, context_v = 0, line_number = 1 \<rparr>"
  have d: "decode_options ?opts = Inr ?cfg"
    by (simp add: decode_options_def option_set_def)
  have d0: "decode_options Map.empty = Inr ?off"
    by (simp add: decode_options_def option_set_def)
  have o: "always_show_errors ?cfg" "always_show_warnings ?cfg" "- 1 \<le> search_context ?cfg"
    by simp_all
  have o0: "\<not> always_show_errors ?off \<and> ([] :: string list) = []"
    "\<not> always_show_warnings ?off \<and> ([] :: string list) = []"
    by simp_all
  have sF: "step rx_literal ?cfg 1 [] init_state ''# UVM_FATAL x'' = Inr (Next ?stF)"
    by code_simp
  have sE: "step rx_literal ?cfg 1 [] init_state ''# UVM_ERROR x'' = Inr (Next ?stE)"
    by code_simp
  have sW: "step rx_literal ?cfg 1 [] init_state ''# UVM_WARNING x'' = Inr (Next ?stW)"
    by code_simp
  have sE0: "step rx_literal ?off 1 [] init_state ''# UVM_ERROR x'' = Inr (Next ?stEoff)"
    by code_simp
  have sW0: "step rx_literal ?off 1 [] init_state ''# UVM_WARNING x'' = Inr (Next ?stWoff)"
    by code_simp
  have mF: "startswith (uvm_fatal_string ?cfg) (fold_case ?cfg (clean ''# UVM_FATAL x''))"
    by code_simp
  have mE: "startswith (uvm_error_string ?cfg) (fold_case ?cfg (clean ''# UVM_ERROR x''))"
    by code_simp
  have mW: "startswith (uvm_warning_string ?cfg) (fold_case ?cfg (clean ''# UVM_WARNING x''))"
    by code_simp
  have mE0: "startswith (uvm_error_string ?off) (fold_case ?off (clean ''# UVM_ERROR x''))"
    by code_simp
  have mW0: "startswith (uvm_warning_string ?off) (fold_case ?off (clean ''# UVM_WARNING x''))"
    by code_simp
  have nm: "\<forall>x\<in>set ([] @ [''# UVM_FATAL x'']).
      \<not> contains (end_of_test_string ?cfg) (fold_case ?cfg (clean x))"
    by code_simp
  have sr: "search rx_literal ([] @ ''# UVM_FATAL x'' # []) [] ?opts
      = Inr [''...'' @ newline, ''# UVM_FATAL x'' @ newline]"
    by code_simp
  note F = C8_force_match_rules [OF d refl, where raw = "''# UVM_FATAL x''"
      and st' = ?stF and ss = "[]" and rx = rx_literal and w = 1 and st = init_state
      and pre = "[]" and post = "[]" and out = "[''...'' @ newline, ''# UVM_FATAL x'' @ newline]"]
  note E = C8_force_match_rules [OF d refl, where raw = "''# UVM_ERROR x''"
      and st' = ?stE and ss = "[]" and rx = rx_literal and w = 1 and st = init_state]
  note W = C8_force_match_rules [OF d refl, where raw = "''# UVM_WARNING x''"
      and st' = ?stW and ss = "[]" and rx = rx_literal and w = 1 and st = init_state]
  note E0 = C8_force_match_rules [OF d0 refl, where raw = "''# UVM_ERROR x''"
      and st' = ?stEoff and ss = "[]" and rx = rx_literal and w = 1 and st = init_state]
  note W0 = C8_force_match_rules [OF d0 refl, where raw = "''# UVM_WARNING x''"
      and st' = ?stWoff and ss = "[]" and rx = rx_literal and w = 1 and st = init_state]
  have 1: "match ?stF" using F sF mF by blast
  have 2: "match ?stE" using E sE mE o(1) by blast
  have 3: "match ?stW" using W sW mW o(2) by blast
  have 4: "\<not> match ?stEoff" using E0 sE0 mE0 o0(1) by blast
  have 5: "\<not> match ?stWoff" using W0 sW0 mW0 o0(2) by blast
  have 6: "emit ?cfg (ljust (str_nat (length ([] :: string list) + 1))
           (line_number_width ([] @ ''# UVM_FATAL x'' # [])), clean ''# UVM_FATAL x'')
      \<in> set [''...'' @ newline, ''# UVM_FATAL x'' @ newline]"
    using F nm mF sr o(3) by blast
  show ?thesis using 1 2 3 4 5 6 by blast
qed

text \<open>
  The claim as stated fails for a fatal line after the end of test line, which is not
  printed, and for an error line that a term matches while \<^verbatim>\<open>SHOW_ERRORS\<close> is off,
  which is printed.
\<close>

theorem C8_not_reached_counterexample:
  "search rx_literal [''# --- UVM Report Summary ---'', ''# UVM_FATAL x''] [] Map.empty
     = Inr []
   \<and> search rx_literal [''# UVM_ERROR e''] [''error''] Map.empty
     = Inr [''...'' @ newline, ''# UVM_ERROR e'' @ newline]"
  by code_simp

subsection \<open>No terms\<close>

text \<open>
  With no terms the search returns a result whenever the options decode; in both modes
  the match flag after a line is set by the force-match rules alone (or was set before
  in the same block) and \<^verbatim>\<open>matches\<close> stays as it is; a log without a line to which a
  force-match rule applies gives the empty result; and a stored line to which a rule
  applies is in the result when the context count is at least \<open>- 1\<close>.
\<close>

lemma no_terms_facts:
  assumes "decode_options opts = Inr cfg"
      and "fline = fold_case cfg (clean raw)"
  shows "(\<exists>out. search rx log [] opts = Inr out)
       \<and> (step rx cfg w [] st raw = Inr (Next st') \<longrightarrow>
            matches st' = matches st
          \<and> match st' = ((\<not> is_boundary cfg fline \<and> match st) \<or> force_match cfg fline))
       \<and> ((\<forall>x\<in>set log. \<not> force_match cfg (fold_case cfg (clean x)))
            \<longrightarrow> search rx log [] opts = Inr [])
       \<and> (- 1 \<le> search_context cfg
            \<and> (\<forall>x\<in>set (pre @ [raw]).
                  \<not> contains (end_of_test_string cfg) (fold_case cfg (clean x)))
            \<and> force_match cfg fline
            \<and> search rx (pre @ raw # post) [] opts = Inr out
          \<longrightarrow> emit cfg (ljust (str_nat (length pre + 1))
                            (line_number_width (pre @ raw # post)), clean raw) \<in> set out)"
proof (intro conjI impI)
  show "\<exists>out. search rx log [] opts = Inr out"
    using assms(1) scan_no_terms_total by (simp add: search_def)
next
  assume s: "step rx cfg w [] st raw = Inr (Next st')"
  show "matches st' = matches st" by (rule step_Next_no_terms(1)[OF s])
  show "match st' = ((\<not> is_boundary cfg fline \<and> match st) \<or> force_match cfg fline)"
    unfolding assms(2) by (rule step_Next_no_terms(2)[OF s])
next
  assume "\<forall>x\<in>set log. \<not> force_match cfg (fold_case cfg (clean x))"
  then have "scan rx cfg (line_number_width log) [] init_state log = Inr []"
    by (rule scan_quiet) (simp_all add: init_state_def)
  then show "search rx log [] opts = Inr []"
    using assms(1) by (simp add: search_def)
next
  assume h: "- 1 \<le> search_context cfg
            \<and> (\<forall>x\<in>set (pre @ [raw]).
                  \<not> contains (end_of_test_string cfg) (fold_case cfg (clean x)))
            \<and> force_match cfg fline
            \<and> search rx (pre @ raw # post) [] opts = Inr out"
  then have sc: "scan rx cfg (line_number_width (pre @ raw # post))
      [] init_state (pre @ raw # post) = Inr out"
    using assms(1) by (simp add: search_def)
  show "emit cfg (ljust (str_nat (length pre + 1))
                            (line_number_width (pre @ raw # post)), clean raw) \<in> set out"
    using scan_prints_forced_line[OF _ sc] h assms(2) by blast
qed

text \<open>
  Claim C9. With no terms the result should hold exactly the blocks that the
  force-match rules show, with their context. With one block of context and a fatal
  line in the second and last block of a log without the end of test line, the first
  block is the context of the second; the flush after the loop removes it from the
  history, as it does for a block matched by a term, and only the fatal block is
  printed. With the end of test line appended, the flush inside the loop prints both
  blocks.
\<close>

theorem C9_forced_last_block_loses_context:
  "search rx [''# UVM_INFO a'', ''# UVM_FATAL x''] [] [''SEARCH_CONTEXT'' \<mapsto> PInt 1]
     = Inr [''...'' @ newline, ''# UVM_FATAL x'' @ newline]
   \<and> search rx [''# UVM_INFO a'', ''# UVM_FATAL x'', ''# --- UVM Report Summary ---'']
       [] [''SEARCH_CONTEXT'' \<mapsto> PInt 1]
     = Inr [''...'' @ newline, ''# UVM_INFO a'' @ newline, ''# UVM_FATAL x'' @ newline]"
  by code_simp

subsection \<open>Separator lines\<close>

lemma slice_from_subset: "set (slice_from i xs) \<subseteq> set xs"
  by (auto simp: slice_from_def dest: in_set_dropD)

lemma grouped_Nil: "grouped P []"
  unfolding grouped_def by (rule exI[of _ "[]"]) simp

lemma grouped_new:
  assumes "grouped P xs" "r \<noteq> []" "\<forall>x\<in>set r. P x"
  shows "grouped P (xs @ (SEPERATION @ newline) # r)"
proof -
  obtain runs where runs: "xs = concat (map (\<lambda>r. (SEPERATION @ newline) # r) runs)"
    "\<forall>r\<in>set runs. r \<noteq> [] \<and> (\<forall>x\<in>set r. P x)"
    using assms(1) unfolding grouped_def by blast
  have "xs @ (SEPERATION @ newline) # r
      = concat (map (\<lambda>r. (SEPERATION @ newline) # r) (runs @ [r]))"
    using runs(1) by simp
  moreover have "\<forall>q\<in>set (runs @ [r]). q \<noteq> [] \<and> (\<forall>x\<in>set q. P x)"
    using runs(2) assms(2,3) by auto
  ultimately show ?thesis unfolding grouped_def by blast
qed

lemma grouped_extend:
  assumes "grouped P xs" "xs \<noteq> []" "\<forall>x\<in>set r. P x"
  shows "grouped P (xs @ r)"
proof -
  obtain runs where runs: "xs = concat (map (\<lambda>r. (SEPERATION @ newline) # r) runs)"
    "\<forall>r\<in>set runs. r \<noteq> [] \<and> (\<forall>x\<in>set r. P x)"
    using assms(1) unfolding grouped_def by blast
  from runs(1) assms(2) have "runs \<noteq> []" by auto
  then obtain rs q where rq: "runs = rs @ [q]"
    by (metis rev_exhaust)
  have "xs @ r = concat (map (\<lambda>r. (SEPERATION @ newline) # r) (rs @ [q @ r]))"
    using runs(1) rq by simp
  moreover have "\<forall>p\<in>set (rs @ [q @ r]). p \<noteq> [] \<and> (\<forall>x\<in>set p. P x)"
    using runs(2) rq assms(3) by auto
  ultimately show ?thesis unfolding grouped_def by blast
qed

lemma grouped_hd:
  assumes "grouped P xs" "xs \<noteq> []"
  shows "hd xs = SEPERATION @ newline"
proof -
  obtain runs where runs: "xs = concat (map (\<lambda>r. (SEPERATION @ newline) # r) runs)"
    using assms(1) unfolding grouped_def by blast
  with assms(2) show ?thesis by (cases runs) auto
qed

lemma grouped_flush:
  assumes "grouped P xs" "lst \<longrightarrow> xs \<noteq> []" "r \<noteq> []" "\<forall>x\<in>set r. P x"
  shows "grouped P (xs @ separator lst @ r)"
proof (cases lst)
  case True
  then show ?thesis
    using grouped_extend[OF assms(1) _ assms(4)] assms(2) by (simp add: separator_def)
next
  case False
  then show ?thesis
    using grouped_new[OF assms(1,3,4)] by (simp add: separator_def)
qed

lemma emit_messages_in:
  assumes "\<forall>m\<in>set ms. set m \<subseteq> S" "\<forall>e\<in>S. P (emit cfg e)"
  shows "\<forall>x\<in>set (emit_messages cfg ms). P x"
  using assms by (auto simp: emit_messages_def)

lemma close_block_messages:
  "messages (close_block cfg st) =
     (if match st \<or> 0 < context_v st then []
      else slice_from ((search_context cfg + 1) * - 1)
            (if 0 < length (buffer st) then messages st @ [buffer st] else messages st))"
  unfolding close_block_def Let_def by simp

lemma close_block_last: "last_v (close_block cfg st) = (match st \<or> 0 < context_v st)"
  unfolding close_block_def Let_def by simp

lemma close_block_inv:
  assumes c: "- 1 \<le> search_context cfg"
      and P: "\<forall>e\<in>S. P (emit cfg e)"
      and inv: "scan_inv P S st"
  shows "grouped P (text_v (close_block cfg st))"
    and "last_v (close_block cfg st) \<longrightarrow> text_v (close_block cfg st) \<noteq> []"
    and "\<forall>m\<in>set (messages (close_block cfg st)). set m \<subseteq> S"
proof -
  let ?h = "if 0 < length (buffer st) then messages st @ [buffer st] else messages st"
  let ?kept = "slice_from ((search_context cfg + 1) * - 1) ?h"
  have hS: "\<forall>m\<in>set ?h. set m \<subseteq> S"
    using inv by (auto simp: scan_inv_def)
  have kS: "\<forall>m\<in>set ?kept. set m \<subseteq> S"
    using hS slice_from_subset[of "(search_context cfg + 1) * - 1" ?h] by blast
  show "\<forall>m\<in>set (messages (close_block cfg st)). set m \<subseteq> S"
    unfolding close_block_messages using kS by simp
  show "grouped P (text_v (close_block cfg st))"
    and "last_v (close_block cfg st) \<longrightarrow> text_v (close_block cfg st) \<noteq> []"
  proof -
    have "grouped P (text_v (close_block cfg st))
        \<and> (last_v (close_block cfg st) \<longrightarrow> text_v (close_block cfg st) \<noteq> [])"
    proof (cases "match st \<or> 0 < context_v st")
      case False
      then show ?thesis
        unfolding close_block_text close_block_last using inv by (simp add: scan_inv_def)
    next
      case True
      then have ne: "buffer st \<noteq> []" using inv by (auto simp: scan_inv_def)
      obtain ys where ys: "slice_from ((search_context cfg + 1) * - 1) (messages st @ [buffer st])
          = ys @ [buffer st]"
        using slice_from_keeps_last[OF c, of "messages st" "buffer st"] by (elim exE conjE)
      have kept: "?kept = ys @ [buffer st]" using ne ys by simp
      have l1: "emit_messages cfg ?kept \<noteq> []"
        unfolding kept using ne by (simp add: emit_messages_def)
      have l2: "\<forall>x\<in>set (emit_messages cfg ?kept). P x"
        by (rule emit_messages_in[OF kS P])
      have "grouped P (text_v st @ separator (last_v st) @ emit_messages cfg ?kept)"
        using inv by (intro grouped_flush l1 l2) (simp_all add: scan_inv_def)
      moreover have "text_v st @ separator (last_v st) @ emit_messages cfg ?kept \<noteq> []"
        using l1 by simp
      ultimately show ?thesis
        unfolding close_block_text close_block_last using True by (simp only: if_True simp_thms)
    qed
    then show "grouped P (text_v (close_block cfg st))"
      and "last_v (close_block cfg st) \<longrightarrow> text_v (close_block cfg st) \<noteq> []"
      by blast+
  qed
qed

lemma scan_inv_line_number:
  "scan_inv P S (st \<lparr> line_number := n \<rparr>) = scan_inv P S st"
  by (simp add: scan_inv_def)

lemma step_Next_inv:
  assumes c: "- 1 \<le> search_context cfg"
      and P: "\<forall>e\<in>S. P (emit cfg e)"
      and inv: "scan_inv P S st"
      and s: "step rx cfg w ss st raw = Inr (Next st')"
      and new: "(ljust (str_nat (line_number st + 1)) w, clean raw) \<in> S"
  shows "scan_inv P S st'"
proof -
  let ?st1 = "st \<lparr> line_number := line_number st + 1 \<rparr>"
  let ?fline = "fold_case cfg (clean raw)"
  have inv1: "scan_inv P S ?st1" using inv by (simp add: scan_inv_line_number)
  have op: "grouped P (text_v (opened cfg st ?fline))
      \<and> (last_v (opened cfg st ?fline) \<longrightarrow> text_v (opened cfg st ?fline) \<noteq> [])
      \<and> (\<forall>m\<in>set (messages (opened cfg st ?fline)). set m \<subseteq> S)
      \<and> set (buffer (opened cfg st ?fline)) \<subseteq> S"
  proof (cases "is_boundary cfg ?fline")
    case True
    then show ?thesis
      using close_block_inv[OF c P inv1] by (simp add: opened_def)
  next
    case False
    then show ?thesis using inv by (simp add: opened_def scan_inv_def)
  qed
  show ?thesis
    unfolding scan_inv_def step_Next(2,3,4,5)[OF s]
    using op new by simp
qed

lemma step_Return_inv:
  assumes c: "- 1 \<le> search_context cfg"
      and P: "\<forall>e\<in>S. P (emit cfg e)"
      and inv: "scan_inv P S st"
      and s: "step rx cfg w ss st raw = Inr (Return t)"
  shows "grouped P t"
proof -
  let ?st1 = "st \<lparr> line_number := line_number st + 1 \<rparr>"
  have inv1: "scan_inv P S ?st1" using inv by (simp add: scan_inv_line_number)
  have "t = text_v (close_block cfg ?st1)" using step_Return[OF s] by blast
  then show ?thesis using close_block_inv(1)[OF c P inv1] by simp
qed

lemma finish_inv:
  assumes P: "\<forall>e\<in>S. P (emit cfg e)"
      and inv: "scan_inv P S st"
  shows "grouped P (finish cfg st)"
proof (cases "match st \<or> 0 < context_v st")
  case False
  then show ?thesis using inv by (simp add: finish_def scan_inv_def)
next
  case True
  let ?h = "if 0 < length (messages st) then tl (messages st) else messages st"
  let ?kept = "slice_from ((search_context cfg + 1) * - 1) ?h"
  let ?r = "emit_messages cfg ?kept @ map (emit cfg) (buffer st)"
  from True have ne: "buffer st \<noteq> []" using inv by (auto simp: scan_inv_def)
  have "set ?h \<subseteq> set (messages st)"
    by (cases "messages st") auto
  then have kS: "\<forall>m\<in>set ?kept. set m \<subseteq> S"
    using inv slice_from_subset[of "(search_context cfg + 1) * - 1" ?h]
    unfolding scan_inv_def by blast
  have l1: "?r \<noteq> []" using ne by simp
  have "\<forall>x\<in>set (map (emit cfg) (buffer st)). P x"
    using inv P by (auto simp: scan_inv_def)
  then have l2: "\<forall>x\<in>set ?r. P x"
    using emit_messages_in[OF kS P] by auto
  have "grouped P (text_v st @ separator (last_v st) @ ?r)"
    using inv by (intro grouped_flush l1 l2) (simp_all add: scan_inv_def)
  then show ?thesis using True by (simp add: finish_def Let_def)
qed

lemma scan_grouped:
  assumes c: "- 1 \<le> search_context cfg"
      and P: "\<forall>e\<in>S. P (emit cfg e)"
  shows "scan rx cfg w ss st ls = Inr out \<Longrightarrow> scan_inv P S st
     \<Longrightarrow> \<forall>i<length ls. (ljust (str_nat (line_number st + i + 1)) w, clean (ls ! i)) \<in> S
     \<Longrightarrow> grouped P out"
proof (induction ls arbitrary: st)
  case Nil
  then have "out = finish cfg st" by simp
  then show ?case using finish_inv[OF P Nil.prems(2)] by simp
next
  case (Cons raw ls)
  show ?case
  proof (cases "step rx cfg w ss st raw")
    case (Inl e)
    with Cons.prems show ?thesis by simp
  next
    case (Inr r)
    show ?thesis
    proof (cases r)
      case (Return t)
      with Inr have s: "step rx cfg w ss st raw = Inr (Return t)" by simp
      with Cons.prems(1) have "out = t" by simp
      then show ?thesis using step_Return_inv[OF c P Cons.prems(2) s] by simp
    next
      case (Next st')
      with Inr have s: "step rx cfg w ss st raw = Inr (Next st')" by simp
      with Cons.prems(1) have sc: "scan rx cfg w ss st' ls = Inr out" by simp
      have new: "(ljust (str_nat (line_number st + 1)) w, clean raw) \<in> S"
        using Cons.prems(3) by fastforce
      have inv': "scan_inv P S st'"
        by (rule step_Next_inv[OF c P Cons.prems(2) s new])
      have "\<forall>i<length ls. (ljust (str_nat (line_number st' + i + 1)) w, clean (ls ! i)) \<in> S"
      proof (intro allI impI)
        fix i assume "i < length ls"
        then have "Suc i < length (raw # ls)" by simp
        then have "(ljust (str_nat (line_number st + Suc i + 1)) w, clean ((raw # ls) ! Suc i)) \<in> S"
          using Cons.prems(3) by blast
        then show "(ljust (str_nat (line_number st' + i + 1)) w, clean (ls ! i)) \<in> S"
          using step_Next(7)[OF s] by simp
      qed
      then show ?thesis using Cons.IH[OF sc inv'] by blast
    qed
  qed
qed

lemma scan_inv_init: "scan_inv P S init_state"
  by (simp add: scan_inv_def init_state_def grouped_Nil)

text \<open>
  Claim C2, as the code has it. When the context count is at least \<open>- 1\<close>, the result is
  a sequence of groups, each one separator line followed by at least one printed line of
  the file: the scan never puts two separator lines in a row and never ends with one, but
  every result that is not empty begins with a separator line, so the very first printed
  run has one before it.
\<close>

theorem C2_separator_groups:
  assumes "decode_options opts = Inr cfg"
      and "- 1 \<le> search_context cfg"
      and "search rx file search_strings opts = Inr out"
  shows "grouped (\<lambda>x. x \<in> emit cfg ` set (entries (line_number_width file) file)) out
       \<and> (out \<noteq> [] \<longrightarrow> hd out = SEPERATION @ newline)"
proof -
  let ?w = "line_number_width file"
  let ?S = "set (entries ?w file)"
  let ?P = "\<lambda>x. x \<in> emit cfg ` ?S"
  have sc: "scan rx cfg ?w (map (fold_case cfg) search_strings) init_state file = Inr out"
    using assms(1,3) by (simp add: search_def)
  have P: "\<forall>e\<in>?S. ?P (emit cfg e)" by blast
  have e: "\<forall>i<length file.
      (ljust (str_nat (line_number init_state + i + 1)) ?w, clean (file ! i)) \<in> ?S"
    by (auto simp: entries_def init_state_def)
  have g: "grouped ?P out"
    by (rule scan_grouped[OF assms(2) P sc scan_inv_init e])
  then show ?thesis using grouped_hd by blast
qed

theorem C2_separator_groups_witness:
  "grouped (\<lambda>x. x \<in> emit \<lparr> search_regex = False, search_case_sensitive = False,
          search_exclusive = False, always_show_errors = False, always_show_warnings = False,
          show_line_numbers = False, search_context = 0 \<rparr>
        ` set (entries (line_number_width [''# UVM_FATAL x'']) [''# UVM_FATAL x'']))
      [''...'' @ newline, ''# UVM_FATAL x'' @ newline]
   \<and> hd [''...'' @ newline, ''# UVM_FATAL x'' @ newline] = SEPERATION @ newline"
proof -
  let ?cfg = "\<lparr> search_regex = False, search_case_sensitive = False,
          search_exclusive = False, always_show_errors = False, always_show_warnings = False,
          show_line_numbers = False, search_context = 0 \<rparr>"
  have d: "decode_options Map.empty = Inr ?cfg"
    by (simp add: decode_options_def option_set_def)
  have c: "- 1 \<le> search_context ?cfg" by simp
  have s: "search rx_literal [''# UVM_FATAL x''] [] Map.empty
      = Inr [''...'' @ newline, ''# UVM_FATAL x'' @ newline]"
    by code_simp
  have n: "[''...'' @ newline, ''# UVM_FATAL x'' @ newline] \<noteq> []" by simp
  show ?thesis
    using C2_separator_groups [OF d c s] n by blast
qed

text \<open>
  The claim as stated fails: a log whose only line is printed has the separator before
  it; with one block of context a separator stands between the printed blocks b and c,
  which are adjacent in the log; and with a context count of \<open>- 2\<close> two separator lines
  follow each other.
\<close>

theorem C2_separator_first_counterexample:
  "search rx_literal [''# UVM_FATAL x''] [] Map.empty
     = Inr [''...'' @ newline, ''# UVM_FATAL x'' @ newline]
   \<and> search rx_literal
       [''# UVM_INFO a'', ''# UVM_FATAL k'', ''# UVM_INFO b'', ''# UVM_INFO c'',
        ''# UVM_FATAL d'', ''# UVM_INFO e'']
       [] [''SEARCH_CONTEXT'' \<mapsto> PInt 1]
     = Inr [''...'' @ newline, ''# UVM_INFO a'' @ newline, ''# UVM_FATAL k'' @ newline,
            ''# UVM_INFO b'' @ newline, ''...'' @ newline, ''# UVM_INFO c'' @ newline,
            ''# UVM_FATAL d'' @ newline, ''# UVM_INFO e'' @ newline]
   \<and> search rx_literal
       [''# UVM_FATAL c'', ''# UVM_INFO d'', ''# UVM_FATAL e'', ''# UVM_INFO f'']
       [] [''SEARCH_CONTEXT'' \<mapsto> PInt (- 2)]
     = Inr [''...'' @ newline, ''...'' @ newline]"
  by code_simp

end
